theory Spec2Isabelle
  imports Main "HOL-Library.Word" "HOL-Library.Multiset"
begin

section \<open>The sample program: data model\<close>

text \<open>
  The program is \<^verbatim>\<open>examples/sample_program.c\<close>: a coordinator (\<^verbatim>\<open>main\<close>), three
  counter workers (\<^verbatim>\<open>worker_thread\<close>) and one array worker (\<^verbatim>\<open>mutex_user_thread\<close>)
  over two mutexes, a counter and an array of ten integers.

  A C \<^verbatim>\<open>int\<close> that takes part in arithmetic (the counter, the array elements, the sums)
  is a 32-bit word, so \<open>+\<close> and \<open>*\<close> wrap around. A loop counter starts at 0, only
  counts up and stays below a bound that is itself an \<^verbatim>\<open>int\<close>, so it is a \<open>nat\<close>
  and is compared with its bound in \<open>int\<close>.
\<close>

type_synonym cint = "32 word"

text \<open>\<^verbatim>\<open>typedef struct { int id; int iterations; } thread_data_t;\<close>\<close>

record thread_data_t =
  id' :: int
  iterations :: int

text \<open>A \<^verbatim>\<open>void*\<close> result; the only one the program ever returns is \<^verbatim>\<open>NULL\<close>.\<close>

datatype void_ptr = NULL | Address nat

text \<open>
  One step of a thread either moves on, or cannot be taken now (the thread is blocked in
  \<^verbatim>\<open>pthread_mutex_lock\<close> or \<^verbatim>\<open>pthread_join\<close>, was never created, or has returned),
  or has no defined behaviour in C (a read outside an array, a read of memory never
  written, unlocking or re-locking a mutex against its owner).
\<close>

datatype 'a outcome = Next 'a | Disabled | Undefined

fun and_then :: "'a outcome \<Rightarrow> ('a \<Rightarrow> 'b outcome) \<Rightarrow> 'b outcome" where
  "and_then (Next x) f = f x"
| "and_then Disabled f = Disabled"
| "and_then Undefined f = Undefined"

text \<open>The lines written by \<^verbatim>\<open>printf\<close>, one constructor for each format string.\<close>

datatype event =
    Starting                       \<comment> \<open>\<^verbatim>\<open>Starting sample program...\<close>\<close>
  | Worker_line int cint cint      \<comment> \<open>\<^verbatim>\<open>Thread %d: counter = %d, local = %d\<close>\<close>
  | Acquired_mutex1 int            \<comment> \<open>\<^verbatim>\<open>Thread %d: acquired mutex1\<close>\<close>
  | Acquired_mutex2 int            \<comment> \<open>\<^verbatim>\<open>Thread %d: acquired mutex2\<close>\<close>
  | Initial_sum cint               \<comment> \<open>\<^verbatim>\<open>Main thread: initial sum = %d\<close>\<close>
  | Final_counter cint             \<comment> \<open>\<^verbatim>\<open>Final counter: %d\<close>\<close>
  | Final_sum cint                 \<comment> \<open>\<^verbatim>\<open>Final sum: %d\<close>\<close>
  | Completed                      \<comment> \<open>\<^verbatim>\<open>Program completed successfully\<close>\<close>

text \<open>
  The control points of \<^verbatim>\<open>worker_thread\<close>. \<^verbatim>\<open>counter++\<close> is a read followed by a
  write of the value read plus one: two steps, between which other threads may run.
\<close>

datatype worker_pc =
    W_for nat                \<comment> \<open>\<^verbatim>\<open>i < data->iterations\<close>\<close>
  | W_lock nat               \<comment> \<open>\<^verbatim>\<open>pthread_mutex_lock(&mutex1)\<close>\<close>
  | W_load nat               \<comment> \<open>\<^verbatim>\<open>counter++\<close>, the read\<close>
  | W_store nat cint         \<comment> \<open>\<^verbatim>\<open>counter++\<close>, the write\<close>
  | W_local nat              \<comment> \<open>\<^verbatim>\<open>int local_value = counter\<close>\<close>
  | W_usleep100 nat cint     \<comment> \<open>\<^verbatim>\<open>usleep(100)\<close>\<close>
  | W_printf nat cint        \<comment> \<open>\<^verbatim>\<open>printf(..., data->id, counter, local_value)\<close>\<close>
  | W_unlock nat             \<comment> \<open>\<^verbatim>\<open>pthread_mutex_unlock(&mutex1)\<close>\<close>
  | W_usleep1000 nat         \<comment> \<open>\<^verbatim>\<open>usleep(1000); i++\<close>\<close>
  | W_return void_ptr        \<comment> \<open>\<^verbatim>\<open>return NULL\<close>, done\<close>

text \<open>The control points of \<^verbatim>\<open>mutex_user_thread\<close>; \<^verbatim>\<open>array[i] *= 2\<close> is a read and a write.\<close>

datatype user_pc =
    U_lock1                  \<comment> \<open>\<^verbatim>\<open>pthread_mutex_lock(&mutex1)\<close>\<close>
  | U_printf1                \<comment> \<open>\<^verbatim>\<open>printf("Thread %d: acquired mutex1\n", data->id)\<close>\<close>
  | U_usleep                 \<comment> \<open>\<^verbatim>\<open>usleep(10000)\<close>\<close>
  | U_lock2                  \<comment> \<open>\<^verbatim>\<open>pthread_mutex_lock(&mutex2)\<close>\<close>
  | U_printf2                \<comment> \<open>\<^verbatim>\<open>printf("Thread %d: acquired mutex2\n", data->id)\<close>\<close>
  | U_for nat                \<comment> \<open>\<^verbatim>\<open>i < 5\<close>\<close>
  | U_load nat               \<comment> \<open>\<^verbatim>\<open>array[i] *= 2\<close>, the read\<close>
  | U_store nat cint         \<comment> \<open>\<^verbatim>\<open>array[i] *= 2\<close>, the write; \<^verbatim>\<open>i++\<close>\<close>
  | U_unlock2                \<comment> \<open>\<^verbatim>\<open>pthread_mutex_unlock(&mutex2)\<close>\<close>
  | U_unlock1                \<comment> \<open>\<^verbatim>\<open>pthread_mutex_unlock(&mutex1)\<close>\<close>
  | U_return void_ptr        \<comment> \<open>\<^verbatim>\<open>return NULL\<close>, done\<close>

text \<open>
  A slot of \<^verbatim>\<open>pthread_t threads[num_threads]\<close>: nothing before \<^verbatim>\<open>pthread_create\<close>,
  afterwards the start routine, its argument (an index into \<^verbatim>\<open>thread_data\<close>, for the
  pointer \<^verbatim>\<open>&thread_data[i]\<close>) and where the thread stands.
\<close>

datatype thread =
    Not_created
  | Worker_thread nat worker_pc
  | Mutex_user_thread nat user_pc

text \<open>The control points of \<^verbatim>\<open>main\<close>; a call of \<^verbatim>\<open>calculate_sum\<close> is its loop, inlined.\<close>

datatype main_pc =
    M_printf_start           \<comment> \<open>\<^verbatim>\<open>printf("Starting sample program...\n")\<close>\<close>
  | M_for_create nat         \<comment> \<open>\<^verbatim>\<open>i < num_threads - 1\<close>\<close>
  | M_set_data nat           \<comment> \<open>\<^verbatim>\<open>thread_data[i].id = i + 1; thread_data[i].iterations = 5\<close>\<close>
  | M_create nat             \<comment> \<open>\<^verbatim>\<open>pthread_create(&threads[i], NULL, worker_thread, &thread_data[i]); i++\<close>\<close>
  | M_set_user_data          \<comment> \<open>\<^verbatim>\<open>thread_data[num_threads - 1].id = num_threads; ....iterations = 1\<close>\<close>
  | M_create_user            \<comment> \<open>\<^verbatim>\<open>pthread_create(&threads[num_threads - 1], NULL, mutex_user_thread, ...)\<close>\<close>
  | M_calculate_sum1 nat cint \<comment> \<open>\<^verbatim>\<open>int sum = calculate_sum(array, 10)\<close>: its \<open>i\<close> and \<open>sum\<close> (\<open>acc\<close>)\<close>
  | M_printf_initial cint    \<comment> \<open>\<^verbatim>\<open>printf("Main thread: initial sum = %d\n", sum)\<close>\<close>
  | M_for_join nat           \<comment> \<open>\<^verbatim>\<open>i < num_threads\<close>\<close>
  | M_join nat               \<comment> \<open>\<^verbatim>\<open>pthread_join(threads[i], NULL); i++\<close>\<close>
  | M_calculate_sum2 nat cint \<comment> \<open>\<^verbatim>\<open>sum = calculate_sum(array, 10)\<close>: its \<open>i\<close> and \<open>sum\<close> (\<open>acc\<close>)\<close>
  | M_printf_counter cint    \<comment> \<open>\<^verbatim>\<open>printf("Final counter: %d\n", counter)\<close>\<close>
  | M_printf_sum cint        \<comment> \<open>\<^verbatim>\<open>printf("Final sum: %d\n", sum)\<close>\<close>
  | M_printf_completed       \<comment> \<open>\<^verbatim>\<open>printf("Program completed successfully\n")\<close>\<close>
  | M_return int             \<comment> \<open>\<^verbatim>\<open>return 0\<close>, done\<close>

text \<open>
  The globals (\<^verbatim>\<open>mutex1\<close>, \<^verbatim>\<open>mutex2\<close>, \<^verbatim>\<open>counter\<close>, \<^verbatim>\<open>array\<close>), the frame of
  \<^verbatim>\<open>main\<close> (\<^verbatim>\<open>argc\<close>, \<^verbatim>\<open>argv\<close>, \<^verbatim>\<open>threads\<close>, \<^verbatim>\<open>thread_data\<close>, its control point) and
  standard output. A mutex holds its owner, the index of the thread in \<^verbatim>\<open>threads\<close>;
  an element of \<^verbatim>\<open>thread_data\<close> is \<open>None\<close> until it is written.
\<close>

record state =
  mutex1 :: "nat option"
  mutex2 :: "nat option"
  counter :: cint
  array :: "cint list"
  argc :: int
  argv :: "string list"
  threads :: "thread list"
  thread_data :: "thread_data_t option list"
  main_pc :: main_pc
  stdout :: "event list"

text \<open>
  The two constants of \<^verbatim>\<open>main\<close>: \<^verbatim>\<open>const int num_threads = 4\<close> and the \<^verbatim>\<open>5\<close> stored in
  \<^verbatim>\<open>thread_data[i].iterations\<close>. They are parameters here, the program is their value
  \<open>sample_program\<close>.
\<close>

record config =
  num_threads :: nat
  worker_iterations :: nat

definition sample_program :: config where
  "sample_program = \<lparr>num_threads = 4, worker_iterations = 5\<rparr>"

section \<open>Memory and the mutex\<close>

definition deref :: "'a option list \<Rightarrow> nat \<Rightarrow> 'a option" where
  "deref mem p = (if p < length mem then mem ! p else None)"

definition load :: "'a list \<Rightarrow> nat \<Rightarrow> 'a option" where
  "load mem i = (if i < length mem then Some (mem ! i) else None)"

text \<open>
  A default mutex (\<^verbatim>\<open>PTHREAD_MUTEX_INITIALIZER\<close>): locking blocks while another thread
  owns it; locking it again by its owner and unlocking it by a thread that does not own
  it are undefined.
\<close>

definition pthread_mutex_lock :: "nat \<Rightarrow> nat option \<Rightarrow> nat option outcome" where
  "pthread_mutex_lock self m =
     (case m of None \<Rightarrow> Next (Some self)
      | Some owner \<Rightarrow> if owner = self then Undefined else Disabled)"

definition pthread_mutex_unlock :: "nat \<Rightarrow> nat option \<Rightarrow> nat option outcome" where
  "pthread_mutex_unlock self m = (if m = Some self then Next None else Undefined)"

section \<open>The functions of the program\<close>

subsection \<open>\<^verbatim>\<open>calculate_sum\<close>\<close>

text \<open>
  \<^verbatim>\<open>int sum = 0; for (int i = 0; i < size; i++) sum += arr[i]; return sum;\<close>
  The array is the list of the elements behind \<^verbatim>\<open>arr\<close>; reading past them is \<open>None\<close>.
\<close>

function calculate_sum_loop :: "cint list \<Rightarrow> int \<Rightarrow> nat \<Rightarrow> cint \<Rightarrow> cint option" where
  "calculate_sum_loop arr size' i acc =
     (if int i < size' then
        (case load arr i of
           None \<Rightarrow> None
         | Some v \<Rightarrow> calculate_sum_loop arr size' (i + 1) (acc + v))
      else Some acc)"
  by pat_completeness auto
termination
  by (relation "measure (\<lambda>(arr, size', i, acc). nat (size' - int i))") auto

declare calculate_sum_loop.simps [simp del]

definition calculate_sum :: "cint list \<Rightarrow> int \<Rightarrow> cint option" where
  "calculate_sum arr size' = calculate_sum_loop arr size' 0 0"

subsection \<open>\<^verbatim>\<open>worker_thread\<close>\<close>

text \<open>\<open>self\<close> is the thread's index in \<^verbatim>\<open>threads\<close>, \<open>arg\<close> the pointer it was given.\<close>

fun worker_thread :: "nat \<Rightarrow> nat \<Rightarrow> worker_pc \<Rightarrow> state \<Rightarrow> (worker_pc \<times> state) outcome" where
  "worker_thread self arg (W_for i) s =
     (case deref (thread_data s) arg of
        None \<Rightarrow> Undefined
      | Some data \<Rightarrow> Next (if int i < iterations data then W_lock i else W_return NULL, s))"
| "worker_thread self arg (W_lock i) s =
     and_then (pthread_mutex_lock self (mutex1 s)) (\<lambda>m. Next (W_load i, s\<lparr>mutex1 := m\<rparr>))"
| "worker_thread self arg (W_load i) s = Next (W_store i (counter s), s)"
| "worker_thread self arg (W_store i tmp) s = Next (W_local i, s\<lparr>counter := tmp + 1\<rparr>)"
| "worker_thread self arg (W_local i) s = Next (W_usleep100 i (counter s), s)"
| "worker_thread self arg (W_usleep100 i local_value) s = Next (W_printf i local_value, s)"
| "worker_thread self arg (W_printf i local_value) s =
     (case deref (thread_data s) arg of
        None \<Rightarrow> Undefined
      | Some data \<Rightarrow>
          Next (W_unlock i,
                s\<lparr>stdout := stdout s @ [Worker_line (id' data) (counter s) local_value]\<rparr>))"
| "worker_thread self arg (W_unlock i) s =
     and_then (pthread_mutex_unlock self (mutex1 s)) (\<lambda>m. Next (W_usleep1000 i, s\<lparr>mutex1 := m\<rparr>))"
| "worker_thread self arg (W_usleep1000 i) s = Next (W_for (i + 1), s)"
| "worker_thread self arg (W_return r) s = Disabled"

subsection \<open>\<^verbatim>\<open>mutex_user_thread\<close>\<close>

fun mutex_user_thread :: "nat \<Rightarrow> nat \<Rightarrow> user_pc \<Rightarrow> state \<Rightarrow> (user_pc \<times> state) outcome" where
  "mutex_user_thread self arg U_lock1 s =
     and_then (pthread_mutex_lock self (mutex1 s)) (\<lambda>m. Next (U_printf1, s\<lparr>mutex1 := m\<rparr>))"
| "mutex_user_thread self arg U_printf1 s =
     (case deref (thread_data s) arg of
        None \<Rightarrow> Undefined
      | Some data \<Rightarrow> Next (U_usleep, s\<lparr>stdout := stdout s @ [Acquired_mutex1 (id' data)]\<rparr>))"
| "mutex_user_thread self arg U_usleep s = Next (U_lock2, s)"
| "mutex_user_thread self arg U_lock2 s =
     and_then (pthread_mutex_lock self (mutex2 s)) (\<lambda>m. Next (U_printf2, s\<lparr>mutex2 := m\<rparr>))"
| "mutex_user_thread self arg U_printf2 s =
     (case deref (thread_data s) arg of
        None \<Rightarrow> Undefined
      | Some data \<Rightarrow> Next (U_for 0, s\<lparr>stdout := stdout s @ [Acquired_mutex2 (id' data)]\<rparr>))"
| "mutex_user_thread self arg (U_for i) s = Next (if i < 5 then U_load i else U_unlock2, s)"
| "mutex_user_thread self arg (U_load i) s =
     (case load (array s) i of
        None \<Rightarrow> Undefined
      | Some v \<Rightarrow> Next (U_store i v, s))"
| "mutex_user_thread self arg (U_store i v) s =
     (if i < length (array s) then Next (U_for (i + 1), s\<lparr>array := (array s)[i := v * 2]\<rparr>)
      else Undefined)"
| "mutex_user_thread self arg U_unlock2 s =
     and_then (pthread_mutex_unlock self (mutex2 s)) (\<lambda>m. Next (U_unlock1, s\<lparr>mutex2 := m\<rparr>))"
| "mutex_user_thread self arg U_unlock1 s =
     and_then (pthread_mutex_unlock self (mutex1 s)) (\<lambda>m. Next (U_return NULL, s\<lparr>mutex1 := m\<rparr>))"
| "mutex_user_thread self arg (U_return r) s = Disabled"

subsection \<open>\<^verbatim>\<open>main\<close>\<close>

fun finished :: "thread \<Rightarrow> bool" where
  "finished (Worker_thread arg (W_return r)) = True"
| "finished (Mutex_user_thread arg (U_return r)) = True"
| "finished th = False"

fun main_thread :: "config \<Rightarrow> main_pc \<Rightarrow> state \<Rightarrow> (main_pc \<times> state) outcome" where
  "main_thread cfg M_printf_start s = Next (M_for_create 0, s\<lparr>stdout := stdout s @ [Starting]\<rparr>)"
| "main_thread cfg (M_for_create i) s =
     Next (if int i < int (num_threads cfg) - 1 then M_set_data i else M_set_user_data, s)"
| "main_thread cfg (M_set_data i) s =
     (if i < length (thread_data s) then
        Next (M_create i,
              s\<lparr>thread_data := (thread_data s)
                   [i := Some \<lparr>id' = int i + 1, iterations = int (worker_iterations cfg)\<rparr>]\<rparr>)
      else Undefined)"
| "main_thread cfg (M_create i) s =
     (if i < length (threads s) then
        Next (M_for_create (i + 1), s\<lparr>threads := (threads s)[i := Worker_thread i (W_for 0)]\<rparr>)
      else Undefined)"
| "main_thread cfg M_set_user_data s =
     (if 0 \<le> int (num_threads cfg) - 1 \<and> num_threads cfg - 1 < length (thread_data s) then
        Next (M_create_user,
              s\<lparr>thread_data := (thread_data s)
                   [num_threads cfg - 1 := Some \<lparr>id' = int (num_threads cfg), iterations = 1\<rparr>]\<rparr>)
      else Undefined)"
| "main_thread cfg M_create_user s =
     (if 0 \<le> int (num_threads cfg) - 1 \<and> num_threads cfg - 1 < length (threads s) then
        Next (M_calculate_sum1 0 0,
              s\<lparr>threads := (threads s)
                   [num_threads cfg - 1 := Mutex_user_thread (num_threads cfg - 1) U_lock1]\<rparr>)
      else Undefined)"
| "main_thread cfg (M_calculate_sum1 i acc) s =
     (if int i < 10 then
        (case load (array s) i of
           None \<Rightarrow> Undefined
         | Some v \<Rightarrow> Next (M_calculate_sum1 (i + 1) (acc + v), s))
      else Next (M_printf_initial acc, s))"
| "main_thread cfg (M_printf_initial acc) s =
     Next (M_for_join 0, s\<lparr>stdout := stdout s @ [Initial_sum acc]\<rparr>)"
| "main_thread cfg (M_for_join i) s =
     Next (if int i < int (num_threads cfg) then M_join i else M_calculate_sum2 0 0, s)"
| "main_thread cfg (M_join i) s =
     (case load (threads s) i of
        None \<Rightarrow> Undefined
      | Some Not_created \<Rightarrow> Undefined
      | Some th \<Rightarrow> if finished th then Next (M_for_join (i + 1), s) else Disabled)"
| "main_thread cfg (M_calculate_sum2 i acc) s =
     (if int i < 10 then
        (case load (array s) i of
           None \<Rightarrow> Undefined
         | Some v \<Rightarrow> Next (M_calculate_sum2 (i + 1) (acc + v), s))
      else Next (M_printf_counter acc, s))"
| "main_thread cfg (M_printf_counter acc) s =
     Next (M_printf_sum acc, s\<lparr>stdout := stdout s @ [Final_counter (counter s)]\<rparr>)"
| "main_thread cfg (M_printf_sum acc) s =
     Next (M_printf_completed, s\<lparr>stdout := stdout s @ [Final_sum acc]\<rparr>)"
| "main_thread cfg M_printf_completed s =
     Next (M_return 0, s\<lparr>stdout := stdout s @ [Completed]\<rparr>)"
| "main_thread cfg (M_return r) s = Disabled"

section \<open>Interleavings\<close>

text \<open>
  A schedule names, step by step, the thread that runs next. One step of the program is
  one step of that thread on the shared state.
\<close>

datatype tid = Main | Thread nat

fun step :: "config \<Rightarrow> tid \<Rightarrow> state \<Rightarrow> state outcome" where
  "step cfg Main s =
     and_then (main_thread cfg (main_pc s) s) (\<lambda>(pc, s'). Next (s'\<lparr>main_pc := pc\<rparr>))"
| "step cfg (Thread t) s =
     (case load (threads s) t of
        None \<Rightarrow> Disabled
      | Some Not_created \<Rightarrow> Disabled
      | Some (Worker_thread arg pc) \<Rightarrow>
          and_then (worker_thread t arg pc s)
            (\<lambda>(pc', s'). Next (s'\<lparr>threads := (threads s')[t := Worker_thread arg pc']\<rparr>))
      | Some (Mutex_user_thread arg pc) \<Rightarrow>
          and_then (mutex_user_thread t arg pc s)
            (\<lambda>(pc', s'). Next (s'\<lparr>threads := (threads s')[t := Mutex_user_thread arg pc']\<rparr>)))"

fun exec :: "config \<Rightarrow> tid list \<Rightarrow> state \<Rightarrow> state option" where
  "exec cfg [] s = Some s"
| "exec cfg (t # sched) s =
     (case step cfg t s of Next s' \<Rightarrow> exec cfg sched s' | Disabled \<Rightarrow> None | Undefined \<Rightarrow> None)"

text \<open>
  The state in which \<^verbatim>\<open>main(argc, argv)\<close> starts: the initialisers of the globals, and
  the two arrays of \<^verbatim>\<open>main\<close> with nothing in them yet.
\<close>

definition initial_array :: "cint list" where
  "initial_array = [1, 2, 3, 4, 5, 6, 7, 8, 9, 10]"

definition start :: "config \<Rightarrow> int \<Rightarrow> string list \<Rightarrow> state" where
  "start cfg ac av =
     \<lparr>mutex1 = None, mutex2 = None, counter = 0,
      array = initial_array,
      argc = ac, argv = av,
      threads = replicate (num_threads cfg) Not_created,
      thread_data = replicate (num_threads cfg) None,
      main_pc = M_printf_start, stdout = []\<rparr>"

definition reachable :: "config \<Rightarrow> state \<Rightarrow> bool" where
  "reachable cfg s \<longleftrightarrow> (\<exists>ac av sched. exec cfg sched (start cfg ac av) = Some s)"

section \<open>The invariant of the program\<close>

text \<open>
  What holds in every state the program can reach, control point by control point.
  First \<^verbatim>\<open>main\<close>: how many slots of \<^verbatim>\<open>threads\<close> hold a thread, how many elements of
  \<^verbatim>\<open>thread_data\<close> are written, how many threads are joined, and the range of its
  loop counters.
\<close>

fun launched :: "config \<Rightarrow> main_pc \<Rightarrow> nat" where
  "launched cfg M_printf_start = 0"
| "launched cfg (M_for_create i) = i"
| "launched cfg (M_set_data i) = i"
| "launched cfg (M_create i) = i"
| "launched cfg M_set_user_data = num_threads cfg - 1"
| "launched cfg M_create_user = num_threads cfg - 1"
| "launched cfg pc = num_threads cfg"

fun data_written :: "config \<Rightarrow> main_pc \<Rightarrow> nat" where
  "data_written cfg M_printf_start = 0"
| "data_written cfg (M_for_create i) = i"
| "data_written cfg (M_set_data i) = i"
| "data_written cfg (M_create i) = i + 1"
| "data_written cfg M_set_user_data = num_threads cfg - 1"
| "data_written cfg pc = num_threads cfg"

fun joined :: "config \<Rightarrow> main_pc \<Rightarrow> nat" where
  "joined cfg (M_for_join i) = i"
| "joined cfg (M_join i) = i"
| "joined cfg (M_calculate_sum2 i acc) = num_threads cfg"
| "joined cfg (M_printf_counter acc) = num_threads cfg"
| "joined cfg (M_printf_sum acc) = num_threads cfg"
| "joined cfg M_printf_completed = num_threads cfg"
| "joined cfg (M_return r) = num_threads cfg"
| "joined cfg pc = 0"

fun main_ok :: "config \<Rightarrow> main_pc \<Rightarrow> bool" where
  "main_ok cfg (M_for_create i) = (i \<le> num_threads cfg - 1)"
| "main_ok cfg (M_set_data i) = (i < num_threads cfg - 1)"
| "main_ok cfg (M_create i) = (i < num_threads cfg - 1)"
| "main_ok cfg (M_for_join i) = (i \<le> num_threads cfg)"
| "main_ok cfg (M_join i) = (i < num_threads cfg)"
| "main_ok cfg (M_return r) = (r = 0)"
| "main_ok cfg pc = True"

text \<open>The slot \<open>t\<close> of \<^verbatim>\<open>threads\<close> and of \<^verbatim>\<open>thread_data\<close>.\<close>

fun is_worker :: "nat \<Rightarrow> thread \<Rightarrow> bool" where
  "is_worker t (Worker_thread arg pc) = (arg = t)"
| "is_worker t th = False"

fun is_mutex_user :: "nat \<Rightarrow> thread \<Rightarrow> bool" where
  "is_mutex_user t (Mutex_user_thread arg pc) = (arg = t)"
| "is_mutex_user t th = False"

definition data_of :: "config \<Rightarrow> nat \<Rightarrow> thread_data_t" where
  "data_of cfg t =
     (if t < num_threads cfg - 1 then \<lparr>id' = int t + 1, iterations = int (worker_iterations cfg)\<rparr>
      else \<lparr>id' = int (num_threads cfg), iterations = 1\<rparr>)"

definition slot_ok :: "config \<Rightarrow> state \<Rightarrow> nat \<Rightarrow> bool" where
  "slot_ok cfg s t \<longleftrightarrow>
     (if t < launched cfg (main_pc s) then
        (if t < num_threads cfg - 1 then is_worker t (threads s ! t)
         else is_mutex_user t (threads s ! t))
      else threads s ! t = Not_created) \<and>
     (t < data_written cfg (main_pc s) \<longrightarrow> thread_data s ! t = Some (data_of cfg t)) \<and>
     (t < joined cfg (main_pc s) \<longrightarrow> finished (threads s ! t))"

text \<open>
  A worker: its counter \<open>i\<close> is within the iterations; between its read and its write
  of \<^verbatim>\<open>counter\<close> the value it read is still the counter, and so is \<^verbatim>\<open>local_value\<close>
  until the line is printed.
\<close>

fun worker_ok :: "nat \<Rightarrow> cint \<Rightarrow> worker_pc \<Rightarrow> bool" where
  "worker_ok K c (W_for i) = (i \<le> K)"
| "worker_ok K c (W_lock i) = (i < K)"
| "worker_ok K c (W_load i) = (i < K)"
| "worker_ok K c (W_store i tmp) = (i < K \<and> tmp = c)"
| "worker_ok K c (W_local i) = (i < K)"
| "worker_ok K c (W_usleep100 i local_value) = (i < K \<and> local_value = c)"
| "worker_ok K c (W_printf i local_value) = (i < K \<and> local_value = c)"
| "worker_ok K c (W_unlock i) = (i < K)"
| "worker_ok K c (W_usleep1000 i) = (i < K)"
| "worker_ok K c (W_return r) = (r = NULL)"

text \<open>The array after the first \<open>k\<close> elements were doubled.\<close>

definition doubled :: "nat \<Rightarrow> cint list" where
  "doubled k = map (\<lambda>x. x * 2) (take k initial_array) @ drop k initial_array"

fun user_ok :: "cint list \<Rightarrow> user_pc \<Rightarrow> bool" where
  "user_ok arr (U_for i) = (i \<le> 5 \<and> arr = doubled i)"
| "user_ok arr (U_load i) = (i < 5 \<and> arr = doubled i)"
| "user_ok arr (U_store i v) = (i < 5 \<and> arr = doubled i \<and> v = initial_array ! i)"
| "user_ok arr U_unlock2 = (arr = doubled 5)"
| "user_ok arr U_unlock1 = (arr = doubled 5)"
| "user_ok arr (U_return r) = (r = NULL \<and> arr = doubled 5)"
| "user_ok arr pc = (arr = initial_array)"

fun holds_mutex1 :: "thread \<Rightarrow> bool" where
  "holds_mutex1 Not_created = False"
| "holds_mutex1 (Worker_thread arg (W_for i)) = False"
| "holds_mutex1 (Worker_thread arg (W_lock i)) = False"
| "holds_mutex1 (Worker_thread arg (W_usleep1000 i)) = False"
| "holds_mutex1 (Worker_thread arg (W_return r)) = False"
| "holds_mutex1 (Worker_thread arg pc) = True"
| "holds_mutex1 (Mutex_user_thread arg U_lock1) = False"
| "holds_mutex1 (Mutex_user_thread arg (U_return r)) = False"
| "holds_mutex1 (Mutex_user_thread arg pc) = True"

fun holds_mutex2 :: "thread \<Rightarrow> bool" where
  "holds_mutex2 (Mutex_user_thread arg U_printf2) = True"
| "holds_mutex2 (Mutex_user_thread arg (U_for i)) = True"
| "holds_mutex2 (Mutex_user_thread arg (U_load i)) = True"
| "holds_mutex2 (Mutex_user_thread arg (U_store i v)) = True"
| "holds_mutex2 (Mutex_user_thread arg U_unlock2) = True"
| "holds_mutex2 th = False"

fun thread_ok :: "nat \<Rightarrow> cint \<Rightarrow> cint list \<Rightarrow> thread \<Rightarrow> bool" where
  "thread_ok K c arr Not_created = True"
| "thread_ok K c arr (Worker_thread arg pc) = worker_ok K c pc"
| "thread_ok K c arr (Mutex_user_thread arg pc) = user_ok arr pc"

text \<open>The increments of \<^verbatim>\<open>counter\<close> a thread has completed.\<close>

fun incs :: "nat \<Rightarrow> thread \<Rightarrow> nat" where
  "incs K (Worker_thread arg (W_for i)) = i"
| "incs K (Worker_thread arg (W_lock i)) = i"
| "incs K (Worker_thread arg (W_load i)) = i"
| "incs K (Worker_thread arg (W_store i tmp)) = i"
| "incs K (Worker_thread arg (W_local i)) = i + 1"
| "incs K (Worker_thread arg (W_usleep100 i local_value)) = i + 1"
| "incs K (Worker_thread arg (W_printf i local_value)) = i + 1"
| "incs K (Worker_thread arg (W_unlock i)) = i + 1"
| "incs K (Worker_thread arg (W_usleep1000 i)) = i + 1"
| "incs K (Worker_thread arg (W_return r)) = K"
| "incs K th = 0"

fun owner_ok :: "config \<Rightarrow> nat option \<Rightarrow> bool" where
  "owner_ok cfg None = True"
| "owner_ok cfg (Some t) = (t < num_threads cfg)"

definition inv :: "config \<Rightarrow> state \<Rightarrow> bool" where
  "inv cfg s \<longleftrightarrow>
     length (threads s) = num_threads cfg \<and>
     length (thread_data s) = num_threads cfg \<and>
     main_ok cfg (main_pc s) \<and>
     (\<forall>t < num_threads cfg. slot_ok cfg s t) \<and>
     (\<forall>t < num_threads cfg.
        thread_ok (worker_iterations cfg) (counter s) (array s) (threads s ! t)) \<and>
     (\<forall>t < num_threads cfg. (mutex1 s = Some t) = holds_mutex1 (threads s ! t)) \<and>
     (\<forall>t < num_threads cfg. (mutex2 s = Some t) = holds_mutex2 (threads s ! t)) \<and>
     owner_ok cfg (mutex1 s) \<and> owner_ok cfg (mutex2 s) \<and>
     (launched cfg (main_pc s) < num_threads cfg \<longrightarrow> array s = initial_array) \<and>
     counter s = of_nat (sum_list (map (incs (worker_iterations cfg)) (threads s)))"

text \<open>
  The steps a thread still has to take until it has returned: nine for each iteration of
  a worker and one for the last test of its loop, 23 for the array worker.
\<close>

fun worker_rem :: "nat \<Rightarrow> worker_pc \<Rightarrow> nat" where
  "worker_rem K (W_for i) = 9 * (K - i) + 1"
| "worker_rem K (W_lock i) = 9 * (K - i)"
| "worker_rem K (W_load i) = 9 * (K - i) - 1"
| "worker_rem K (W_store i tmp) = 9 * (K - i) - 2"
| "worker_rem K (W_local i) = 9 * (K - i) - 3"
| "worker_rem K (W_usleep100 i local_value) = 9 * (K - i) - 4"
| "worker_rem K (W_printf i local_value) = 9 * (K - i) - 5"
| "worker_rem K (W_unlock i) = 9 * (K - i) - 6"
| "worker_rem K (W_usleep1000 i) = 9 * (K - i) - 7"
| "worker_rem K (W_return r) = 0"

fun user_rem :: "user_pc \<Rightarrow> nat" where
  "user_rem U_lock1 = 23"
| "user_rem U_printf1 = 22"
| "user_rem U_usleep = 21"
| "user_rem U_lock2 = 20"
| "user_rem U_printf2 = 19"
| "user_rem (U_for i) = 3 * (5 - i) + 3"
| "user_rem (U_load i) = 3 * (5 - i) + 2"
| "user_rem (U_store i v) = 3 * (5 - i) + 1"
| "user_rem U_unlock2 = 2"
| "user_rem U_unlock1 = 1"
| "user_rem (U_return r) = 0"

fun thread_rem :: "nat \<Rightarrow> thread \<Rightarrow> nat" where
  "thread_rem K Not_created = 0"
| "thread_rem K (Worker_thread arg pc) = worker_rem K pc"
| "thread_rem K (Mutex_user_thread arg pc) = user_rem pc"

text \<open>The lines of standard output that \<^verbatim>\<open>main\<close> writes.\<close>

fun main_line :: "event \<Rightarrow> bool" where
  "main_line (Worker_line i c l) = False"
| "main_line (Acquired_mutex1 i) = False"
| "main_line (Acquired_mutex2 i) = False"
| "main_line e = True"

definition main_lines :: "event list \<Rightarrow> event list" where
  "main_lines out = filter main_line out"

text \<open>
  What one step of the thread in slot \<open>t\<close> does to a state: it changes that slot, keeps
  the kind of the thread, and changes a mutex only by taking a free one or by releasing
  one it owns, the counter only by adding one while it owns \<^verbatim>\<open>mutex1\<close>, the array only
  when it is the array worker.
\<close>

definition thread_step :: "config \<Rightarrow> state \<Rightarrow> nat \<Rightarrow> state \<Rightarrow> bool" where
  "thread_step cfg s t s' \<longleftrightarrow>
     (\<exists>m1 m2 c arr out th'.
        s' = s\<lparr>mutex1 := m1, mutex2 := m2, counter := c, array := arr, stdout := out,
                threads := (threads s)[t := th']\<rparr> \<and>
        ((is_worker t (threads s ! t) \<and> is_worker t th') \<or>
         (is_mutex_user t (threads s ! t) \<and> is_mutex_user t th')) \<and>
        (finished (threads s ! t) \<longrightarrow> finished th') \<and>
        thread_ok (worker_iterations cfg) c arr th' \<and>
        ((m1 = mutex1 s \<and> holds_mutex1 th' = holds_mutex1 (threads s ! t)) \<or>
         (mutex1 s = None \<and> m1 = Some t \<and> holds_mutex1 th') \<or>
         (mutex1 s = Some t \<and> m1 = None \<and> \<not> holds_mutex1 th')) \<and>
        ((m2 = mutex2 s \<and> holds_mutex2 th' = holds_mutex2 (threads s ! t)) \<or>
         (mutex2 s = None \<and> m2 = Some t \<and> holds_mutex2 th') \<or>
         (mutex2 s = Some t \<and> m2 = None \<and> \<not> holds_mutex2 th')) \<and>
        ((c = counter s \<and>
          incs (worker_iterations cfg) th' = incs (worker_iterations cfg) (threads s ! t)) \<or>
         (holds_mutex1 (threads s ! t) \<and> c = counter s + 1 \<and>
          incs (worker_iterations cfg) th' = incs (worker_iterations cfg) (threads s ! t) + 1)) \<and>
        (arr = array s \<or> is_mutex_user t (threads s ! t)) \<and>
        main_lines out = main_lines (stdout s) \<and>
        thread_rem (worker_iterations cfg) th' + 1 =
          thread_rem (worker_iterations cfg) (threads s ! t))"

text \<open>\<^verbatim>\<open>main\<close> is past its loop of \<^verbatim>\<open>pthread_join\<close>: every thread has been joined.\<close>

fun after_join :: "main_pc \<Rightarrow> bool" where
  "after_join (M_calculate_sum2 i acc) = True"
| "after_join (M_printf_counter acc) = True"
| "after_join (M_printf_sum acc) = True"
| "after_join M_printf_completed = True"
| "after_join (M_return r) = True"
| "after_join pc = False"

section \<open>Some executions of the program\<close>

text \<open>
  \<^verbatim>\<open>main\<close> runs until it waits in the first \<^verbatim>\<open>pthread_join\<close>, then each thread runs
  from its start to its end, one after the other, then \<^verbatim>\<open>main\<close> finishes.
\<close>

definition sequential_schedule :: "tid list" where
  "sequential_schedule =
     replicate 26 Main @ replicate 46 (Thread 0) @ replicate 46 (Thread 1) @
     replicate 46 (Thread 2) @ replicate 23 (Thread 3) @ replicate 22 Main"

definition sequential_final :: state where
  "sequential_final =
     \<lparr>mutex1 = None, mutex2 = None, counter = 15,
      array = [2, 4, 6, 8, 10, 6, 7, 8, 9, 10], argc = 1, argv = [],
      threads =
        [Worker_thread 0 (W_return NULL), Worker_thread 1 (W_return NULL),
         Worker_thread 2 (W_return NULL), Mutex_user_thread 3 (U_return NULL)],
      thread_data =
        [Some \<lparr>id' = 1, iterations = 5\<rparr>, Some \<lparr>id' = 2, iterations = 5\<rparr>,
         Some \<lparr>id' = 3, iterations = 5\<rparr>, Some \<lparr>id' = 4, iterations = 1\<rparr>],
      main_pc = M_return 0,
      stdout =
        [Starting, Initial_sum 55, Worker_line 1 1 1, Worker_line 1 2 2,
         Worker_line 1 3 3, Worker_line 1 4 4, Worker_line 1 5 5,
         Worker_line 2 6 6, Worker_line 2 7 7, Worker_line 2 8 8,
         Worker_line 2 9 9, Worker_line 2 10 10, Worker_line 3 11 11,
         Worker_line 3 12 12, Worker_line 3 13 13, Worker_line 3 14 14,
         Worker_line 3 15 15, Acquired_mutex1 4, Acquired_mutex2 4,
         Final_counter 15, Final_sum 70, Completed]\<rparr>"

text \<open>\<^verbatim>\<open>main\<close> has launched all threads and is about to make its first call of \<^verbatim>\<open>calculate_sum\<close>.\<close>

definition launched_state :: state where
  "launched_state =
     \<lparr>mutex1 = None, mutex2 = None, counter = 0,
      array = [1, 2, 3, 4, 5, 6, 7, 8, 9, 10], argc = 1, argv = [],
      threads =
        [Worker_thread 0 (W_for 0), Worker_thread 1 (W_for 0),
         Worker_thread 2 (W_for 0), Mutex_user_thread 3 U_lock1],
      thread_data =
        [Some \<lparr>id' = 1, iterations = 5\<rparr>, Some \<lparr>id' = 2, iterations = 5\<rparr>,
         Some \<lparr>id' = 3, iterations = 5\<rparr>, Some \<lparr>id' = 4, iterations = 1\<rparr>],
      main_pc = M_calculate_sum1 0 0, stdout = [Starting]\<rparr>"

text \<open>
  From there the array worker takes seven steps: it holds both mutexes, has read
  \<^verbatim>\<open>array[0]\<close> and is about to write it, while \<^verbatim>\<open>main\<close> is still about to sum the array.
\<close>

definition racing_state :: state where
  "racing_state =
     \<lparr>mutex1 = Some 3, mutex2 = Some 3, counter = 0,
      array = [1, 2, 3, 4, 5, 6, 7, 8, 9, 10], argc = 1, argv = [],
      threads =
        [Worker_thread 0 (W_for 0), Worker_thread 1 (W_for 0),
         Worker_thread 2 (W_for 0), Mutex_user_thread 3 (U_store 0 1)],
      thread_data =
        [Some \<lparr>id' = 1, iterations = 5\<rparr>, Some \<lparr>id' = 2, iterations = 5\<rparr>,
         Some \<lparr>id' = 3, iterations = 5\<rparr>, Some \<lparr>id' = 4, iterations = 1\<rparr>],
      main_pc = M_calculate_sum1 0 0,
      stdout = [Starting, Acquired_mutex1 4, Acquired_mutex2 4]\<rparr>"

text \<open>After two steps only, the array worker is in its \<^verbatim>\<open>usleep(10000)\<close>.\<close>

definition sleeping_state :: state where
  "sleeping_state =
     \<lparr>mutex1 = Some 3, mutex2 = None, counter = 0,
      array = [1, 2, 3, 4, 5, 6, 7, 8, 9, 10], argc = 1, argv = [],
      threads =
        [Worker_thread 0 (W_for 0), Worker_thread 1 (W_for 0),
         Worker_thread 2 (W_for 0), Mutex_user_thread 3 U_usleep],
      thread_data =
        [Some \<lparr>id' = 1, iterations = 5\<rparr>, Some \<lparr>id' = 2, iterations = 5\<rparr>,
         Some \<lparr>id' = 3, iterations = 5\<rparr>, Some \<lparr>id' = 4, iterations = 1\<rparr>],
      main_pc = M_calculate_sum1 0 0,
      stdout = [Starting, Acquired_mutex1 4]\<rparr>"

text \<open>
  From \<open>launched_state\<close> the array worker runs to its end at once, before any other
  thread moves.
\<close>

definition doubled_state :: state where
  "doubled_state =
     \<lparr>mutex1 = None, mutex2 = None, counter = 0,
      array = [2, 4, 6, 8, 10, 6, 7, 8, 9, 10], argc = 1, argv = [],
      threads =
        [Worker_thread 0 (W_for 0), Worker_thread 1 (W_for 0),
         Worker_thread 2 (W_for 0), Mutex_user_thread 3 (U_return NULL)],
      thread_data =
        [Some \<lparr>id' = 1, iterations = 5\<rparr>, Some \<lparr>id' = 2, iterations = 5\<rparr>,
         Some \<lparr>id' = 3, iterations = 5\<rparr>, Some \<lparr>id' = 4, iterations = 1\<rparr>],
      main_pc = M_calculate_sum1 0 0,
      stdout = [Starting, Acquired_mutex1 4, Acquired_mutex2 4]\<rparr>"

text \<open>
  The sequential schedule, stopped when \<^verbatim>\<open>main\<close> has joined the four threads and read
  \<^verbatim>\<open>array[0]\<close> in its second call of \<^verbatim>\<open>calculate_sum\<close>.
\<close>

definition joined_schedule :: "tid list" where
  "joined_schedule =
     replicate 26 Main @ replicate 46 (Thread 0) @ replicate 46 (Thread 1) @
     replicate 46 (Thread 2) @ replicate 23 (Thread 3) @ replicate 9 Main"

definition joined_state :: state where
  "joined_state =
     \<lparr>mutex1 = None, mutex2 = None, counter = 15,
      array = [2, 4, 6, 8, 10, 6, 7, 8, 9, 10], argc = 1, argv = [],
      threads =
        [Worker_thread 0 (W_return NULL), Worker_thread 1 (W_return NULL),
         Worker_thread 2 (W_return NULL), Mutex_user_thread 3 (U_return NULL)],
      thread_data =
        [Some \<lparr>id' = 1, iterations = 5\<rparr>, Some \<lparr>id' = 2, iterations = 5\<rparr>,
         Some \<lparr>id' = 3, iterations = 5\<rparr>, Some \<lparr>id' = 4, iterations = 1\<rparr>],
      main_pc = M_calculate_sum2 1 2,
      stdout =
        [Starting, Initial_sum 55, Worker_line 1 1 1, Worker_line 1 2 2,
         Worker_line 1 3 3, Worker_line 1 4 4, Worker_line 1 5 5,
         Worker_line 2 6 6, Worker_line 2 7 7, Worker_line 2 8 8,
         Worker_line 2 9 9, Worker_line 2 10 10, Worker_line 3 11 11,
         Worker_line 3 12 12, Worker_line 3 13 13, Worker_line 3 14 14,
         Worker_line 3 15 15, Acquired_mutex1 4, Acquired_mutex2 4]\<rparr>"

text \<open>A worker that was given a descriptor with a negative number of iterations.\<close>

definition idle_worker_state :: state where
  "idle_worker_state =
     \<lparr>mutex1 = None, mutex2 = None, counter = 7,
      array = [1, 2, 3, 4, 5, 6, 7, 8, 9, 10], argc = 1, argv = [],
      threads = [Worker_thread 0 (W_for 0)],
      thread_data = [Some \<lparr>id' = 1, iterations = - 2\<rparr>],
      main_pc = M_join 0, stdout = [Starting]\<rparr>"

text \<open>
  What a run shows: the globals, the threads, the output and the control point of
  \<^verbatim>\<open>main\<close> with its return value, that is the state without the arguments of \<^verbatim>\<open>main\<close>.
\<close>

definition observable :: "state \<Rightarrow> state" where
  "observable s = s\<lparr>argc := 0, argv := []\<rparr>"

text \<open>
  What \<^verbatim>\<open>main\<close> has written so far, control point by control point, and the range of
  the running sum of its two calls of \<^verbatim>\<open>calculate_sum\<close>: the first call reads each of
  the first five elements before or after it is doubled, the second reads the final array.
\<close>

definition sum_lo :: "nat \<Rightarrow> nat" where
  "sum_lo i = sum_list (map unat (take i initial_array))"

definition sum_hi :: "nat \<Rightarrow> nat" where
  "sum_hi i = sum_list (map unat (take i (doubled 5)))"

definition initial_report :: "event list \<Rightarrow> bool" where
  "initial_report ls \<longleftrightarrow> (\<exists>v. ls = [Starting, Initial_sum v] \<and> 55 \<le> unat v \<and> unat v \<le> 70)"

fun main_out_ok :: "config \<Rightarrow> main_pc \<Rightarrow> event list \<Rightarrow> bool" where
  "main_out_ok cfg M_printf_start ls = (ls = [])"
| "main_out_ok cfg (M_calculate_sum1 i acc) ls =
     (ls = [Starting] \<and> i \<le> 10 \<and> sum_lo i \<le> unat acc \<and> unat acc \<le> sum_hi i)"
| "main_out_ok cfg (M_printf_initial acc) ls =
     (ls = [Starting] \<and> 55 \<le> unat acc \<and> unat acc \<le> 70)"
| "main_out_ok cfg (M_for_join i) ls = initial_report ls"
| "main_out_ok cfg (M_join i) ls = initial_report ls"
| "main_out_ok cfg (M_calculate_sum2 i acc) ls =
     (initial_report ls \<and> i \<le> 10 \<and> acc = sum_list (take i (doubled 5)))"
| "main_out_ok cfg (M_printf_counter acc) ls = (initial_report ls \<and> acc = 70)"
| "main_out_ok cfg (M_printf_sum acc) ls =
     (acc = 70 \<and>
      (\<exists>ls'. initial_report ls' \<and>
         ls = ls' @ [Final_counter (of_nat ((num_threads cfg - 1) * worker_iterations cfg))]))"
| "main_out_ok cfg M_printf_completed ls =
     (\<exists>ls'. initial_report ls' \<and>
        ls = ls' @ [Final_counter (of_nat ((num_threads cfg - 1) * worker_iterations cfg)),
                    Final_sum 70])"
| "main_out_ok cfg (M_return r) ls =
     (\<exists>ls'. initial_report ls' \<and>
        ls = ls' @ [Final_counter (of_nat ((num_threads cfg - 1) * worker_iterations cfg)),
                    Final_sum 70, Completed])"
| "main_out_ok cfg pc ls = (ls = [Starting])"

definition out_inv :: "config \<Rightarrow> state \<Rightarrow> bool" where
  "out_inv cfg s \<longleftrightarrow> main_out_ok cfg (main_pc s) (main_lines (stdout s))"

text \<open>
  The array worker runs to its end as soon as it is launched; only then \<^verbatim>\<open>main\<close> sums
  the array for the first time; then the counter workers run and \<^verbatim>\<open>main\<close> finishes.
\<close>

definition late_sum_schedule :: "tid list" where
  "late_sum_schedule =
     replicate 13 Main @ replicate 23 (Thread 3) @ replicate 13 Main @
     replicate 46 (Thread 0) @ replicate 46 (Thread 1) @ replicate 46 (Thread 2) @
     replicate 22 Main"

definition late_sum_final :: state where
  "late_sum_final =
     \<lparr>mutex1 = None, mutex2 = None, counter = 15,
      array = [2, 4, 6, 8, 10, 6, 7, 8, 9, 10], argc = 1, argv = [],
      threads =
        [Worker_thread 0 (W_return NULL), Worker_thread 1 (W_return NULL),
         Worker_thread 2 (W_return NULL), Mutex_user_thread 3 (U_return NULL)],
      thread_data =
        [Some \<lparr>id' = 1, iterations = 5\<rparr>, Some \<lparr>id' = 2, iterations = 5\<rparr>,
         Some \<lparr>id' = 3, iterations = 5\<rparr>, Some \<lparr>id' = 4, iterations = 1\<rparr>],
      main_pc = M_return 0,
      stdout =
        [Starting, Acquired_mutex1 4, Acquired_mutex2 4, Initial_sum 70,
         Worker_line 1 1 1, Worker_line 1 2 2, Worker_line 1 3 3,
         Worker_line 1 4 4, Worker_line 1 5 5, Worker_line 2 6 6,
         Worker_line 2 7 7, Worker_line 2 8 8, Worker_line 2 9 9,
         Worker_line 2 10 10, Worker_line 3 11 11, Worker_line 3 12 12,
         Worker_line 3 13 13, Worker_line 3 14 14, Worker_line 3 15 15,
         Final_counter 15, Final_sum 70, Completed]\<rparr>"

text \<open>
  The steps \<^verbatim>\<open>main\<close> still has to take, together with those of the threads it has yet
  to launch; the steps that are left in a state; and the length of every complete
  execution.
\<close>

fun main_rem :: "config \<Rightarrow> main_pc \<Rightarrow> nat" where
  "main_rem cfg M_printf_start =
     (num_threads cfg - 1) * (9 * worker_iterations cfg + 4) + 2 * num_threads cfg + 54"
| "main_rem cfg (M_for_create i) =
     (num_threads cfg - 1 - i) * (9 * worker_iterations cfg + 4) + 2 * num_threads cfg + 53"
| "main_rem cfg (M_set_data i) =
     (num_threads cfg - 1 - i) * (9 * worker_iterations cfg + 4) + 2 * num_threads cfg + 52"
| "main_rem cfg (M_create i) =
     (num_threads cfg - 1 - i) * (9 * worker_iterations cfg + 4) + 2 * num_threads cfg + 51"
| "main_rem cfg M_set_user_data = 2 * num_threads cfg + 52"
| "main_rem cfg M_create_user = 2 * num_threads cfg + 51"
| "main_rem cfg (M_calculate_sum1 i acc) = (10 - i) + 2 * num_threads cfg + 17"
| "main_rem cfg (M_printf_initial acc) = 2 * num_threads cfg + 16"
| "main_rem cfg (M_for_join i) = 2 * (num_threads cfg - i) + 15"
| "main_rem cfg (M_join i) = 2 * (num_threads cfg - i) + 14"
| "main_rem cfg (M_calculate_sum2 i acc) = (10 - i) + 4"
| "main_rem cfg (M_printf_counter acc) = 3"
| "main_rem cfg (M_printf_sum acc) = 2"
| "main_rem cfg M_printf_completed = 1"
| "main_rem cfg (M_return r) = 0"

definition remaining :: "config \<Rightarrow> state \<Rightarrow> nat" where
  "remaining cfg s =
     main_rem cfg (main_pc s) + sum_list (map (thread_rem (worker_iterations cfg)) (threads s))"

definition total_steps :: "config \<Rightarrow> nat" where
  "total_steps cfg =
     (num_threads cfg - 1) * (9 * worker_iterations cfg + 4) + 2 * num_threads cfg + 54"

text \<open>A thread that stands before \<^verbatim>\<open>pthread_mutex_lock(&mutex1)\<close>.\<close>

fun waits_mutex1 :: "thread \<Rightarrow> bool" where
  "waits_mutex1 (Worker_thread arg (W_lock i)) = True"
| "waits_mutex1 (Mutex_user_thread arg U_lock1) = True"
| "waits_mutex1 th = False"

section \<open>The invariant holds in every reachable state\<close>

lemma sum_list_replicate_0 [simp]: "sum_list (replicate n (0::nat)) = 0"
  by (induction n) auto

lemma inv_start: "1 \<le> num_threads cfg \<Longrightarrow> inv cfg (start cfg ac av)"
  by (auto simp: inv_def start_def slot_ok_def)

lemma sum_list_map_update:
  "t < length xs \<Longrightarrow> f x = f (xs ! t) + k \<Longrightarrow> sum_list (map f (xs[t := x])) = sum_list (map f xs) + (k::nat)"
  by (induction xs arbitrary: t) (auto split: nat.splits)

lemma inv_slot: "inv cfg s \<Longrightarrow> t < num_threads cfg \<Longrightarrow> slot_ok cfg s t"
  by (simp add: inv_def)

lemma inv_main_ok: "inv cfg s \<Longrightarrow> main_ok cfg (main_pc s)"
  by (simp add: inv_def)

lemma inv_main:
  assumes n: "1 \<le> num_threads cfg" and i: "inv cfg s" and st: "step cfg Main s = Next s'"
  shows "inv cfg s'"
proof (cases "main_pc s")
  case M_printf_start
  with st have "s' = s\<lparr>stdout := stdout s @ [Starting], main_pc := M_for_create 0\<rparr>" by simp
  with n i M_printf_start show ?thesis
  by (simp add: inv_def slot_ok_def)
next
  case (M_for_create i)
  with st have "s' = s\<lparr>main_pc := (if int i < int (num_threads cfg) - 1 then M_set_data i else M_set_user_data)\<rparr>" by simp
  with n i M_for_create show ?thesis
  by (auto simp add: inv_def slot_ok_def)
next
  case (M_set_data i)
  with i have "i < length (thread_data s)" by (auto simp add: inv_def)
  with st M_set_data have "s' = s\<lparr>thread_data := (thread_data s)[i := Some \<lparr>id' = int i + 1, iterations = int (worker_iterations cfg)\<rparr>], main_pc := M_create i\<rparr>" 
    by simp
  with n i M_set_data show ?thesis
  by (auto simp: inv_def slot_ok_def nth_list_update data_of_def less_Suc_eq)
next
  case (M_create i)
  with i have "i < length (threads s)" by (auto simp add: inv_def)
  with st M_create have "s' = s\<lparr>threads := (threads s)[i := Worker_thread i (W_for 0)], main_pc := M_for_create (i + 1)\<rparr>" 
    by simp
  moreover from inv_slot[OF i, of i] inv_main_ok[OF i] M_create have "threads s ! i = Not_created"
    by (simp add: slot_ok_def)
  ultimately show ?thesis using n i M_create
  by (auto simp: inv_def slot_ok_def nth_list_update sum_list_map_update[where k=0] less_Suc_eq split: if_splits)
next
  case M_set_user_data
  with i n have "0 \<le> int (num_threads cfg) - 1 \<and> num_threads cfg - 1 < length (thread_data s)" by (auto simp add: inv_def)
  with st M_set_user_data have "s' = s\<lparr>thread_data := (thread_data s)[num_threads cfg - 1 := Some \<lparr>id' = int (num_threads cfg), iterations = 1\<rparr>], main_pc := M_create_user\<rparr>" 
    by simp
  with n i M_set_user_data show ?thesis
  by (auto simp: inv_def slot_ok_def nth_list_update data_of_def)
next
  case M_create_user
  with i n have "0 \<le> int (num_threads cfg) - 1 \<and> num_threads cfg - 1 < length (threads s)" by (auto simp add: inv_def)
  with st M_create_user have "s' = s\<lparr>threads := (threads s)[num_threads cfg - 1 := Mutex_user_thread (num_threads cfg - 1) U_lock1], main_pc := M_calculate_sum1 0 0\<rparr>" 
    by simp
  moreover from inv_slot[OF i, of "num_threads cfg - 1"] n M_create_user have "threads s ! (num_threads cfg - 1) = Not_created"
    by (simp add: slot_ok_def)
  ultimately show ?thesis using n i M_create_user
  by (auto simp: inv_def slot_ok_def nth_list_update sum_list_map_update[where k=0] split: if_splits)
next
  case (M_calculate_sum1 i acc)
  with st have "s' = s\<lparr>main_pc := main_pc s'\<rparr> \<and> launched cfg (main_pc s') = num_threads cfg \<and> data_written cfg (main_pc s') = num_threads cfg \<and> joined cfg (main_pc s') = 0 \<and> main_ok cfg (main_pc s')"
    by (auto split: if_splits option.splits)
  then obtain pc where "s' = s\<lparr>main_pc := pc\<rparr>" "launched cfg pc = num_threads cfg" "data_written cfg pc = num_threads cfg" "joined cfg pc = 0" "main_ok cfg pc"
    by blast
  with n i M_calculate_sum1 show ?thesis
  by (auto simp: inv_def slot_ok_def)
next
  case (M_printf_initial acc)
  with st have "s' = s\<lparr>stdout := stdout s @ [Initial_sum acc], main_pc := M_for_join 0\<rparr>" by simp
  with n i M_printf_initial show ?thesis
  by (auto simp: inv_def slot_ok_def)
next
  case (M_for_join i)
  with st have "s' = s\<lparr>main_pc := (if int i < int (num_threads cfg) then M_join i else M_calculate_sum2 0 0)\<rparr>" by simp
  with n i M_for_join show ?thesis
  by (auto simp: inv_def slot_ok_def)
next
  case (M_join i)
  with st have "s' = s\<lparr>main_pc := M_for_join (i + 1)\<rparr> \<and> finished (threads s ! i)"
    by (simp add: load_def split: if_splits option.splits thread.splits)
  with n i M_join show ?thesis
  by (auto simp: inv_def slot_ok_def less_Suc_eq)
next
  case (M_calculate_sum2 i acc)
  with st have "s' = s\<lparr>main_pc := main_pc s'\<rparr> \<and> launched cfg (main_pc s') = num_threads cfg \<and> data_written cfg (main_pc s') = num_threads cfg \<and> joined cfg (main_pc s') = num_threads cfg \<and> main_ok cfg (main_pc s')"
    by (auto split: if_splits option.splits)
  then obtain pc where "s' = s\<lparr>main_pc := pc\<rparr>" "launched cfg pc = num_threads cfg" "data_written cfg pc = num_threads cfg" "joined cfg pc = num_threads cfg" "main_ok cfg pc"
    by blast
  with n i M_calculate_sum2 show ?thesis
  by (auto simp: inv_def slot_ok_def)
next
  case (M_printf_counter acc)
  with st have "s' = s\<lparr>stdout := stdout s @ [Final_counter (counter s)], main_pc := M_printf_sum acc\<rparr>" by simp
  with n i M_printf_counter show ?thesis
  by (auto simp: inv_def slot_ok_def)
next
  case (M_printf_sum acc)
  with st have "s' = s\<lparr>stdout := stdout s @ [Final_sum acc], main_pc := M_printf_completed\<rparr>" by simp
  with n i M_printf_sum show ?thesis
  by (auto simp: inv_def slot_ok_def)
next
  case (M_printf_completed)
  with st have "s' = s\<lparr>stdout := stdout s @ [Completed], main_pc := M_return 0\<rparr>" by simp
  with n i M_printf_completed show ?thesis
  by (auto simp: inv_def slot_ok_def)
next
  case (M_return r)
  with st show ?thesis by simp 
qed


lemma worker_ok_counter:
  "\<not> holds_mutex1 (Worker_thread a pc) \<Longrightarrow> worker_ok K c pc \<Longrightarrow> worker_ok K c' pc"
  by (cases pc) auto

lemma thread_ok_counter:
  "\<not> holds_mutex1 th \<Longrightarrow> thread_ok K c arr th \<Longrightarrow> thread_ok K c' arr th"
  by (cases th) (auto intro: worker_ok_counter)

lemma slot_kind:
  "slot_ok cfg s u \<Longrightarrow>
   threads s ! u = Not_created \<or> is_worker u (threads s ! u) \<or> is_mutex_user u (threads s ! u)"
  by (auto simp: slot_ok_def split: if_splits)

lemma thread_ok_array:
  "\<not> is_mutex_user u th \<Longrightarrow> th = Not_created \<or> is_worker u th \<or> is_mutex_user u th \<Longrightarrow>
   thread_ok K c arr th \<Longrightarrow> thread_ok K c arr' th"
  by (cases th) auto

lemma launched_le: "main_ok cfg pc \<Longrightarrow> launched cfg pc \<le> num_threads cfg"
  by (cases pc) auto

lemma mutex_user_last:
  assumes "slot_ok cfg s u" "is_mutex_user u (threads s ! u)" "u < num_threads cfg" "main_ok cfg (main_pc s)"
  shows "u = num_threads cfg - 1 \<and> launched cfg (main_pc s) = num_threads cfg"
proof -
  from assms(1,2) have a: "u < launched cfg (main_pc s)"
    by (cases "threads s ! u") (auto simp: slot_ok_def split: if_splits)
  with assms(1,2) have b: "\<not> u < num_threads cfg - 1"
    by (cases "threads s ! u") (auto simp: slot_ok_def split: if_splits)
  from launched_le[OF assms(4)] a b assms(3) show ?thesis by arith
qed

lemma inv_thread_update:
  assumes i: "inv cfg s" and t: "t < num_threads cfg"
    and s': "s' = s\<lparr>mutex1 := m1, mutex2 := m2, counter := c, array := arr, stdout := out,
                      threads := (threads s)[t := th']\<rparr>"
    and kind: "(is_worker t (threads s ! t) \<and> is_worker t th') \<or>
               (is_mutex_user t (threads s ! t) \<and> is_mutex_user t th')"
    and fin: "finished (threads s ! t) \<longrightarrow> finished th'"
    and ok: "thread_ok (worker_iterations cfg) c arr th'"
    and m1: "(m1 = mutex1 s \<and> holds_mutex1 th' = holds_mutex1 (threads s ! t)) \<or>
             (mutex1 s = None \<and> m1 = Some t \<and> holds_mutex1 th') \<or>
             (mutex1 s = Some t \<and> m1 = None \<and> \<not> holds_mutex1 th')"
    and m2: "(m2 = mutex2 s \<and> holds_mutex2 th' = holds_mutex2 (threads s ! t)) \<or>
             (mutex2 s = None \<and> m2 = Some t \<and> holds_mutex2 th') \<or>
             (mutex2 s = Some t \<and> m2 = None \<and> \<not> holds_mutex2 th')"
    and c: "(c = counter s \<and> incs (worker_iterations cfg) th' = incs (worker_iterations cfg) (threads s ! t)) \<or>
            (holds_mutex1 (threads s ! t) \<and> c = counter s + 1 \<and>
             incs (worker_iterations cfg) th' = incs (worker_iterations cfg) (threads s ! t) + 1)"
    and arr: "arr = array s \<or> is_mutex_user t (threads s ! t)"
  shows "inv cfg s'"
proof -
  let ?n = "num_threads cfg" and ?K = "worker_iterations cfg"
  from i have len: "length (threads s) = ?n" "length (thread_data s) = ?n"
    and mok: "main_ok cfg (main_pc s)"
    and slots: "\<And>u. u < ?n \<Longrightarrow> slot_ok cfg s u"
    and oks: "\<And>u. u < ?n \<Longrightarrow> thread_ok ?K (counter s) (array s) (threads s ! u)"
    and h1: "\<And>u. u < ?n \<Longrightarrow> (mutex1 s = Some u) = holds_mutex1 (threads s ! u)"
    and h2: "\<And>u. u < ?n \<Longrightarrow> (mutex2 s = Some u) = holds_mutex2 (threads s ! u)"
    and o1: "owner_ok cfg (mutex1 s)" and o2: "owner_ok cfg (mutex2 s)"
    and ar: "launched cfg (main_pc s) < ?n \<longrightarrow> array s = initial_array"
    and cnt: "counter s = of_nat (sum_list (map (incs ?K) (threads s)))"
    unfolding inv_def by blast+
  have A: "length (threads s') = ?n" "length (thread_data s') = ?n" "main_ok cfg (main_pc s')"
    using len mok by (simp_all add: s')
  have B: "slot_ok cfg s' u" if u: "u < ?n" for u
  proof (cases "u = t")
    case True
    with slots[OF t] kind fin len t show ?thesis
      by (cases "threads s ! t"; cases th') (auto simp: slot_ok_def s' split: if_splits)
  next
    case False
    with slots[OF u] show ?thesis by (simp add: slot_ok_def s')
  qed
  have C: "thread_ok ?K (counter s') (array s') (threads s' ! u)" if u: "u < ?n" for u
  proof (cases "u = t")
    case True
    with ok len t show ?thesis by (simp add: s')
  next
    case False
    have 1: "thread_ok ?K c (array s) (threads s ! u)"
    proof (cases "c = counter s")
      case True with oks[OF u] show ?thesis by simp
    next
      case F: False
      with c have "holds_mutex1 (threads s ! t)" by auto
      with h1[OF t] h1[OF u] False have "\<not> holds_mutex1 (threads s ! u)" by auto
      from thread_ok_counter[OF this oks[OF u]] show ?thesis .
    qed
    have 2: "thread_ok ?K c arr (threads s ! u)"
    proof (cases "arr = array s")
      case True with 1 show ?thesis by simp
    next
      case F: False
      with arr have mu: "is_mutex_user t (threads s ! t)" by simp
      have "\<not> is_mutex_user u (threads s ! u)"
      proof
        assume "is_mutex_user u (threads s ! u)"
        from mutex_user_last[OF slots[OF u] this u mok] mutex_user_last[OF slots[OF t] mu t mok] False
        show False by simp
      qed
      from thread_ok_array[OF this slot_kind[OF slots[OF u]] 1] show ?thesis .
    qed
    with False show ?thesis by (simp add: s')
  qed
  have D: "(mutex1 s' = Some u) = holds_mutex1 (threads s' ! u)" if u: "u < ?n" for u
    using m1 h1[OF u] h1[OF t] len t by (cases "u = t") (auto simp: s')
  have E: "(mutex2 s' = Some u) = holds_mutex2 (threads s' ! u)" if u: "u < ?n" for u
    using m2 h2[OF u] h2[OF t] len t by (cases "u = t") (auto simp: s')
  have F: "owner_ok cfg (mutex1 s')" "owner_ok cfg (mutex2 s')"
    using m1 m2 o1 o2 t by (auto simp: s')
  have G: "launched cfg (main_pc s') < ?n \<longrightarrow> array s' = initial_array"
  proof (cases "arr = array s")
    case True with ar show ?thesis by (simp add: s')
  next
    case False
    with arr have "is_mutex_user t (threads s ! t)" by simp
    from mutex_user_last[OF slots[OF t] this t mok] show ?thesis by (simp add: s')
  qed
  have H: "counter s' = of_nat (sum_list (map (incs ?K) (threads s')))"
  proof -
    from c consider
        (same) "c = counter s" "incs ?K th' = incs ?K (threads s ! t) + 0"
      | (inc) "c = counter s + 1" "incs ?K th' = incs ?K (threads s ! t) + 1"
      by auto
    then show ?thesis
    proof cases
      case same
      with sum_list_map_update[of t "threads s" "incs ?K" th' 0] len t cnt show ?thesis
        by (simp add: s')
    next
      case inc
      with sum_list_map_update[of t "threads s" "incs ?K" th' 1] len t cnt show ?thesis
        by (simp add: s')
    qed
  qed
  from A B C D E F G H show ?thesis
    unfolding inv_def by blast
qed


lemma main_lines_snoc [simp]:
  "main_lines (out @ [e]) = (if main_line e then main_lines out @ [e] else main_lines out)"
  by (simp add: main_lines_def)

lemma main_lines_Nil [simp]: "main_lines [] = []"
  by (simp add: main_lines_def)

lemma thread_stepI:
  assumes s': "s' = s\<lparr>mutex1 := m1, mutex2 := m2, counter := c, array := arr, stdout := out,
                      threads := (threads s)[t := th']\<rparr>"
    and "(is_worker t (threads s ! t) \<and> is_worker t th') \<or>
               (is_mutex_user t (threads s ! t) \<and> is_mutex_user t th')"
    and "finished (threads s ! t) \<longrightarrow> finished th'"
    and "thread_ok (worker_iterations cfg) c arr th'"
    and "(m1 = mutex1 s \<and> holds_mutex1 th' = holds_mutex1 (threads s ! t)) \<or>
             (mutex1 s = None \<and> m1 = Some t \<and> holds_mutex1 th') \<or>
             (mutex1 s = Some t \<and> m1 = None \<and> \<not> holds_mutex1 th')"
    and "(m2 = mutex2 s \<and> holds_mutex2 th' = holds_mutex2 (threads s ! t)) \<or>
             (mutex2 s = None \<and> m2 = Some t \<and> holds_mutex2 th') \<or>
             (mutex2 s = Some t \<and> m2 = None \<and> \<not> holds_mutex2 th')"
    and "(c = counter s \<and> incs (worker_iterations cfg) th' = incs (worker_iterations cfg) (threads s ! t)) \<or>
            (holds_mutex1 (threads s ! t) \<and> c = counter s + 1 \<and>
             incs (worker_iterations cfg) th' = incs (worker_iterations cfg) (threads s ! t) + 1)"
    and "arr = array s \<or> is_mutex_user t (threads s ! t)"
    and "main_lines out = main_lines (stdout s)"
    and "thread_rem (worker_iterations cfg) th' + 1 = thread_rem (worker_iterations cfg) (threads s ! t)"
  shows "thread_step cfg s t s'"
  unfolding thread_step_def using assms by blast

lemma inv_thread_step:
  assumes "inv cfg s" "t < num_threads cfg" "thread_step cfg s t s'"
  shows "inv cfg s'"
proof -
  from assms(3) obtain m1 m2 c arr out th' where
    "s' = s\<lparr>mutex1 := m1, mutex2 := m2, counter := c, array := arr, stdout := out,
                      threads := (threads s)[t := th']\<rparr>"
    "(is_worker t (threads s ! t) \<and> is_worker t th') \<or>
               (is_mutex_user t (threads s ! t) \<and> is_mutex_user t th')"
    "finished (threads s ! t) \<longrightarrow> finished th'"
    "thread_ok (worker_iterations cfg) c arr th'"
    "(m1 = mutex1 s \<and> holds_mutex1 th' = holds_mutex1 (threads s ! t)) \<or>
             (mutex1 s = None \<and> m1 = Some t \<and> holds_mutex1 th') \<or>
             (mutex1 s = Some t \<and> m1 = None \<and> \<not> holds_mutex1 th')"
    "(m2 = mutex2 s \<and> holds_mutex2 th' = holds_mutex2 (threads s ! t)) \<or>
             (mutex2 s = None \<and> m2 = Some t \<and> holds_mutex2 th') \<or>
             (mutex2 s = Some t \<and> m2 = None \<and> \<not> holds_mutex2 th')"
    "(c = counter s \<and> incs (worker_iterations cfg) th' = incs (worker_iterations cfg) (threads s ! t)) \<or>
            (holds_mutex1 (threads s ! t) \<and> c = counter s + 1 \<and>
             incs (worker_iterations cfg) th' = incs (worker_iterations cfg) (threads s ! t) + 1)"
    "arr = array s \<or> is_mutex_user t (threads s ! t)"
    unfolding thread_step_def by blast
  from inv_thread_update[OF assms(1,2) this] show ?thesis .
qed

lemma launched_le_written: "main_ok cfg pc \<Longrightarrow> launched cfg pc \<le> data_written cfg pc"
  by (cases pc) auto

lemma inv_worker_facts:
  assumes i: "inv cfg s" and t: "t < num_threads cfg" and th: "threads s ! t = Worker_thread arg pc"
  shows "arg = t" 
    and "deref (thread_data s) t = Some \<lparr>id' = int t + 1, iterations = int (worker_iterations cfg)\<rparr>"
    and "worker_ok (worker_iterations cfg) (counter s) pc"
    and "(mutex1 s = Some t) = holds_mutex1 (Worker_thread t pc)"
    and "length (threads s) = num_threads cfg"
proof -
  from i t have sl: "slot_ok cfg s t" and mok: "main_ok cfg (main_pc s)"
    and len: "length (threads s) = num_threads cfg" "length (thread_data s) = num_threads cfg"
    and ok: "thread_ok (worker_iterations cfg) (counter s) (array s) (threads s ! t)"
    and h1: "(mutex1 s = Some t) = holds_mutex1 (threads s ! t)"
    unfolding inv_def by blast+
  from sl th show a: "arg = t" by (auto simp: slot_ok_def split: if_splits)
  from sl th have l: "t < launched cfg (main_pc s)" "t < num_threads cfg - 1"
    by (auto simp: slot_ok_def split: if_splits)
  with launched_le_written[OF mok] have "t < data_written cfg (main_pc s)" by simp
  with sl l len t show "deref (thread_data s) t = Some \<lparr>id' = int t + 1, iterations = int (worker_iterations cfg)\<rparr>"
    by (simp add: slot_ok_def deref_def data_of_def)
  from ok th show "worker_ok (worker_iterations cfg) (counter s) pc" by simp
  from h1 th a show "(mutex1 s = Some t) = holds_mutex1 (Worker_thread t pc)" by simp
  from len show "length (threads s) = num_threads cfg" by simp
qed

lemma worker_thread_step:
  assumes i: "inv cfg s" and st: "step cfg (Thread t) s = Next s'"
    and th: "threads s ! t = Worker_thread arg pc" and t: "t < num_threads cfg"
  shows "thread_step cfg s t s'"
proof -
  note f = inv_worker_facts[OF i t th]
  from f(5) t have ld: "load (threads s) t = Some (Worker_thread t pc)"
    using th f(1) by (simp add: load_def)
  show ?thesis
  proof (cases pc)
    case (W_for j)
    let ?th = "Worker_thread t (if j < worker_iterations cfg then W_lock j else W_return NULL)"
    from st ld f(2) W_for have "s' = s\<lparr>threads := (threads s)[t := ?th]\<rparr>"
      by simp
    then have s': "s' = s\<lparr>mutex1 := mutex1 s, mutex2 := mutex2 s, counter := counter s, array := array s,
         stdout := stdout s, threads := (threads s)[t := ?th]\<rparr>" by simp
    show ?thesis
      by (rule thread_stepI[OF s']) (use f(1,3,4) th W_for in auto)
  next
    case (W_lock j)
    let ?th = "Worker_thread t (W_load j)"
    from st ld W_lock f(4) have m: "mutex1 s = None"
      by (cases "mutex1 s") (auto simp: pthread_mutex_lock_def split: if_splits)
    with st ld W_lock have "s' = s\<lparr>mutex1 := Some t, threads := (threads s)[t := ?th]\<rparr>"
      by (simp add: pthread_mutex_lock_def)
    then have s': "s' = s\<lparr>mutex1 := Some t, mutex2 := mutex2 s, counter := counter s, array := array s,
         stdout := stdout s, threads := (threads s)[t := ?th]\<rparr>" by simp
    show ?thesis
      by (rule thread_stepI[OF s']) (use f(1,3,4) th W_lock m in auto)
  next
    case (W_load j)
    let ?th = "Worker_thread t (W_store j (counter s))"
    from st ld W_load have "s' = s\<lparr>threads := (threads s)[t := ?th]\<rparr>"
      by simp
    then have s': "s' = s\<lparr>mutex1 := mutex1 s, mutex2 := mutex2 s, counter := counter s, array := array s,
         stdout := stdout s, threads := (threads s)[t := ?th]\<rparr>" by simp
    show ?thesis
      by (rule thread_stepI[OF s']) (use f(1,3,4) th W_load in auto)
  next
    case (W_store j tmp)
    let ?th = "Worker_thread t (W_local j)"
    from st ld W_store have "s' = s\<lparr>counter := tmp + 1, threads := (threads s)[t := ?th]\<rparr>"
      by simp
    then have s': "s' = s\<lparr>mutex1 := mutex1 s, mutex2 := mutex2 s, counter := tmp + 1, array := array s,
         stdout := stdout s, threads := (threads s)[t := ?th]\<rparr>" by simp
    show ?thesis
      by (rule thread_stepI[OF s']) (use f(1,3,4) th W_store in auto)
  next
    case (W_local j)
    let ?th = "Worker_thread t (W_usleep100 j (counter s))"
    from st ld W_local have "s' = s\<lparr>threads := (threads s)[t := ?th]\<rparr>"
      by simp
    then have s': "s' = s\<lparr>mutex1 := mutex1 s, mutex2 := mutex2 s, counter := counter s, array := array s,
         stdout := stdout s, threads := (threads s)[t := ?th]\<rparr>" by simp
    show ?thesis
      by (rule thread_stepI[OF s']) (use f(1,3,4) th W_local in auto)
  next
    case (W_usleep100 j lv)
    let ?th = "Worker_thread t (W_printf j lv)"
    from st ld W_usleep100 have "s' = s\<lparr>threads := (threads s)[t := ?th]\<rparr>"
      by simp
    then have s': "s' = s\<lparr>mutex1 := mutex1 s, mutex2 := mutex2 s, counter := counter s, array := array s,
         stdout := stdout s, threads := (threads s)[t := ?th]\<rparr>" by simp
    show ?thesis
      by (rule thread_stepI[OF s']) (use f(1,3,4) th W_usleep100 in auto)
  next
    case (W_printf j lv)
    let ?th = "Worker_thread t (W_unlock j)"
    from st ld W_printf f(2) have "s' = s\<lparr>stdout := stdout s @ [Worker_line (int t + 1) (counter s) lv],
         threads := (threads s)[t := ?th]\<rparr>"
      by simp
    then have s': "s' = s\<lparr>mutex1 := mutex1 s, mutex2 := mutex2 s, counter := counter s, array := array s,
         stdout := stdout s @ [Worker_line (int t + 1) (counter s) lv], threads := (threads s)[t := ?th]\<rparr>" by simp
    show ?thesis
      by (rule thread_stepI[OF s']) (use f(1,3,4) th W_printf in auto)
  next
    case (W_unlock j)
    let ?th = "Worker_thread t (W_usleep1000 j)"
    from f(4) W_unlock have m: "mutex1 s = Some t" by simp
    with st ld W_unlock have "s' = s\<lparr>mutex1 := None, threads := (threads s)[t := ?th]\<rparr>"
      by (simp add: pthread_mutex_unlock_def)
    then have s': "s' = s\<lparr>mutex1 := None, mutex2 := mutex2 s, counter := counter s, array := array s,
         stdout := stdout s, threads := (threads s)[t := ?th]\<rparr>" by simp
    show ?thesis
      by (rule thread_stepI[OF s']) (use f(1,3,4) th W_unlock m in auto)
  next
    case (W_usleep1000 j)
    let ?th = "Worker_thread t (W_for (j + 1))"
    from st ld W_usleep1000 have "s' = s\<lparr>threads := (threads s)[t := ?th]\<rparr>"
      by simp
    then have s': "s' = s\<lparr>mutex1 := mutex1 s, mutex2 := mutex2 s, counter := counter s, array := array s,
         stdout := stdout s, threads := (threads s)[t := ?th]\<rparr>" by simp
    show ?thesis
      by (rule thread_stepI[OF s']) (use f(1,3,4) th W_usleep1000 in auto)
  next
    case (W_return r)
    with st ld show ?thesis by simp
  qed
qed


lemma length_initial_array [simp]: "length initial_array = 10"
  by (simp add: initial_array_def)

lemma length_doubled [simp]: "length (doubled k) = 10"
  by (simp add: doubled_def)

lemma doubled_0 [simp]: "doubled 0 = initial_array"
  by (simp add: doubled_def)

lemma doubled_nth_same: "k < 10 \<Longrightarrow> doubled k ! k = initial_array ! k"
  by (simp add: doubled_def nth_append)

lemma doubled_Suc: "k < 10 \<Longrightarrow> (doubled k)[k := initial_array ! k * 2] = doubled (Suc k)"
proof -
  assume k: "k < 10"
  then have d: "drop k initial_array = initial_array ! k # drop (Suc k) initial_array"
    by (simp add: Cons_nth_drop_Suc)
  from k show ?thesis
    by (simp add: doubled_def list_update_append take_Suc_conv_app_nth d)
qed

lemma inv_user_facts:
  assumes n: "1 \<le> num_threads cfg" and i: "inv cfg s" and t: "t < num_threads cfg"
    and th: "threads s ! t = Mutex_user_thread arg pc"
  shows "arg = t" 
    and "deref (thread_data s) t = Some \<lparr>id' = int (num_threads cfg), iterations = 1\<rparr>"
    and "user_ok (array s) pc"
    and "(mutex1 s = Some t) = holds_mutex1 (Mutex_user_thread t pc)"
    and "(mutex2 s = Some t) = holds_mutex2 (Mutex_user_thread t pc)"
    and "length (threads s) = num_threads cfg"
proof -
  from i t have sl: "slot_ok cfg s t" and mok: "main_ok cfg (main_pc s)"
    and len: "length (threads s) = num_threads cfg" "length (thread_data s) = num_threads cfg"
    and ok: "thread_ok (worker_iterations cfg) (counter s) (array s) (threads s ! t)"
    and h1: "(mutex1 s = Some t) = holds_mutex1 (threads s ! t)"
    and h2: "(mutex2 s = Some t) = holds_mutex2 (threads s ! t)"
    unfolding inv_def by blast+
  from sl th show a: "arg = t" by (auto simp: slot_ok_def split: if_splits)
  from sl th have l: "t < launched cfg (main_pc s)" "\<not> t < num_threads cfg - 1"
    by (auto simp: slot_ok_def split: if_splits)
  with launched_le_written[OF mok] have "t < data_written cfg (main_pc s)" by simp
  with sl l len t show "deref (thread_data s) t = Some \<lparr>id' = int (num_threads cfg), iterations = 1\<rparr>"
    by (simp add: slot_ok_def deref_def data_of_def)
  from ok th show "user_ok (array s) pc" by simp
  from h1 th a show "(mutex1 s = Some t) = holds_mutex1 (Mutex_user_thread t pc)" by simp
  from h2 th a show "(mutex2 s = Some t) = holds_mutex2 (Mutex_user_thread t pc)" by simp
  from len show "length (threads s) = num_threads cfg" by simp
qed

lemma user_thread_step:
  assumes n: "1 \<le> num_threads cfg" and i: "inv cfg s" and st: "step cfg (Thread t) s = Next s'"
    and th: "threads s ! t = Mutex_user_thread arg pc" and t: "t < num_threads cfg"
  shows "thread_step cfg s t s'"
proof -
  note f = inv_user_facts[OF n i t th]
  from f(6) t have ld: "load (threads s) t = Some (Mutex_user_thread t pc)"
    using th f(1) by (simp add: load_def)
  note g = f(1,3,4,5) th
  show ?thesis
  proof (cases pc)
    case U_lock1
    let ?th = "Mutex_user_thread t U_printf1"
    from st ld U_lock1 f(4) have m: "mutex1 s = None"
      by (cases "mutex1 s") (auto simp: pthread_mutex_lock_def split: if_splits)
    with st ld U_lock1 have "s' = s\<lparr>mutex1 := Some t, threads := (threads s)[t := ?th]\<rparr>"
      by (simp add: pthread_mutex_lock_def)
    then have s': "s' = s\<lparr>mutex1 := Some t, mutex2 := mutex2 s, counter := counter s, array := array s,
         stdout := stdout s, threads := (threads s)[t := ?th]\<rparr>" by simp
    show ?thesis
      by (rule thread_stepI[OF s']) (use g U_lock1 m in auto)
  next
    case U_printf1
    let ?th = "Mutex_user_thread t U_usleep"
    from st ld U_printf1 f(2) have "s' = s\<lparr>stdout := stdout s @ [Acquired_mutex1 (int (num_threads cfg))],
         threads := (threads s)[t := ?th]\<rparr>"
      by simp
    then have s': "s' = s\<lparr>mutex1 := mutex1 s, mutex2 := mutex2 s, counter := counter s, array := array s,
         stdout := stdout s @ [Acquired_mutex1 (int (num_threads cfg))], threads := (threads s)[t := ?th]\<rparr>" by simp
    show ?thesis
      by (rule thread_stepI[OF s']) (use g U_printf1 in auto)
  next
    case U_usleep
    let ?th = "Mutex_user_thread t U_lock2"
    from st ld U_usleep have "s' = s\<lparr>threads := (threads s)[t := ?th]\<rparr>"
      by simp
    then have s': "s' = s\<lparr>mutex1 := mutex1 s, mutex2 := mutex2 s, counter := counter s, array := array s,
         stdout := stdout s, threads := (threads s)[t := ?th]\<rparr>" by simp
    show ?thesis
      by (rule thread_stepI[OF s']) (use g U_usleep in auto)
  next
    case U_lock2
    let ?th = "Mutex_user_thread t U_printf2"
    from st ld U_lock2 f(5) have m: "mutex2 s = None"
      by (cases "mutex2 s") (auto simp: pthread_mutex_lock_def split: if_splits)
    with st ld U_lock2 have "s' = s\<lparr>mutex2 := Some t, threads := (threads s)[t := ?th]\<rparr>"
      by (simp add: pthread_mutex_lock_def)
    then have s': "s' = s\<lparr>mutex1 := mutex1 s, mutex2 := Some t, counter := counter s, array := array s,
         stdout := stdout s, threads := (threads s)[t := ?th]\<rparr>" by simp
    show ?thesis
      by (rule thread_stepI[OF s']) (use g U_lock2 m in auto)
  next
    case U_printf2
    let ?th = "Mutex_user_thread t (U_for 0)"
    from st ld U_printf2 f(2) have "s' = s\<lparr>stdout := stdout s @ [Acquired_mutex2 (int (num_threads cfg))],
         threads := (threads s)[t := ?th]\<rparr>"
      by simp
    then have s': "s' = s\<lparr>mutex1 := mutex1 s, mutex2 := mutex2 s, counter := counter s, array := array s,
         stdout := stdout s @ [Acquired_mutex2 (int (num_threads cfg))], threads := (threads s)[t := ?th]\<rparr>" by simp
    show ?thesis
      by (rule thread_stepI[OF s']) (use g U_printf2 in auto)
  next
    case (U_for j)
    let ?th = "Mutex_user_thread t (if j < 5 then U_load j else U_unlock2)"
    from st ld U_for have "s' = s\<lparr>threads := (threads s)[t := ?th]\<rparr>"
      by simp
    then have s': "s' = s\<lparr>mutex1 := mutex1 s, mutex2 := mutex2 s, counter := counter s, array := array s,
         stdout := stdout s, threads := (threads s)[t := ?th]\<rparr>" by simp
    show ?thesis
      by (rule thread_stepI[OF s']) (use g U_for in auto)
  next
    case (U_load j)
    let ?th = "Mutex_user_thread t (U_store j (initial_array ! j))"
    from f(3) U_load have "load (array s) j = Some (initial_array ! j)"
      by (simp add: load_def doubled_nth_same)
    with st ld U_load have "s' = s\<lparr>threads := (threads s)[t := ?th]\<rparr>"
      by simp
    then have s': "s' = s\<lparr>mutex1 := mutex1 s, mutex2 := mutex2 s, counter := counter s, array := array s,
         stdout := stdout s, threads := (threads s)[t := ?th]\<rparr>" by simp
    show ?thesis
      by (rule thread_stepI[OF s']) (use g U_load in auto)
  next
    case (U_store j v)
    let ?th = "Mutex_user_thread t (U_for (j + 1))"
    from f(3) U_store have a: "j < length (array s)" "(array s)[j := v * 2] = doubled (Suc j)" "j < 5"
      by (simp_all add: doubled_Suc)
    with st ld U_store have "s' = s\<lparr>array := doubled (Suc j), threads := (threads s)[t := ?th]\<rparr>"
      by simp
    then have s': "s' = s\<lparr>mutex1 := mutex1 s, mutex2 := mutex2 s, counter := counter s, array := doubled (Suc j),
         stdout := stdout s, threads := (threads s)[t := ?th]\<rparr>" by simp
    show ?thesis
      by (rule thread_stepI[OF s']) (use g U_store a(3) in auto)
  next
    case U_unlock2
    let ?th = "Mutex_user_thread t U_unlock1"
    from f(5) U_unlock2 have m: "mutex2 s = Some t" by simp
    with st ld U_unlock2 have "s' = s\<lparr>mutex2 := None, threads := (threads s)[t := ?th]\<rparr>"
      by (simp add: pthread_mutex_unlock_def)
    then have s': "s' = s\<lparr>mutex1 := mutex1 s, mutex2 := None, counter := counter s, array := array s,
         stdout := stdout s, threads := (threads s)[t := ?th]\<rparr>" by simp
    show ?thesis
      by (rule thread_stepI[OF s']) (use g U_unlock2 m in auto)
  next
    case U_unlock1
    let ?th = "Mutex_user_thread t (U_return NULL)"
    from f(4) U_unlock1 have m: "mutex1 s = Some t" by simp
    with st ld U_unlock1 have "s' = s\<lparr>mutex1 := None, threads := (threads s)[t := ?th]\<rparr>"
      by (simp add: pthread_mutex_unlock_def)
    then have s': "s' = s\<lparr>mutex1 := None, mutex2 := mutex2 s, counter := counter s, array := array s,
         stdout := stdout s, threads := (threads s)[t := ?th]\<rparr>" by simp
    show ?thesis
      by (rule thread_stepI[OF s']) (use g U_unlock1 m in auto)
  next
    case (U_return r)
    with st ld show ?thesis by simp
  qed
qed

lemma step_Thread:
  assumes n: "1 \<le> num_threads cfg" and i: "inv cfg s" and st: "step cfg (Thread t) s = Next s'"
  shows "t < num_threads cfg \<and> thread_step cfg s t s'"
proof -
  from i have len: "length (threads s) = num_threads cfg" unfolding inv_def by blast
  show ?thesis
  proof (cases "t < num_threads cfg")
    case False
    with st len show ?thesis by (simp add: load_def)
  next
    case True
    show ?thesis
    proof (cases "threads s ! t")
      case Not_created
      with st len True show ?thesis by (simp add: load_def)
    next
      case (Worker_thread arg pc)
      from worker_thread_step[OF i st this True] True show ?thesis by simp
    next
      case (Mutex_user_thread arg pc)
      from user_thread_step[OF n i st this True] True show ?thesis by simp
    qed
  qed
qed

lemma inv_step:
  assumes n: "1 \<le> num_threads cfg" and i: "inv cfg s" and st: "step cfg who s = Next s'"
  shows "inv cfg s'"
proof (cases who)
  case Main
  with inv_main[OF n i] st show ?thesis by simp
next
  case (Thread t)
  with step_Thread[OF n i] st inv_thread_step[OF i] show ?thesis by blast
qed

lemma inv_exec:
  "1 \<le> num_threads cfg \<Longrightarrow> inv cfg s \<Longrightarrow> exec cfg sched s = Some s' \<Longrightarrow> inv cfg s'"
proof (induction sched arbitrary: s)
  case Nil
  then show ?case by simp
next
  case (Cons who sched)
  from Cons.prems(3) obtain s1 where 1: "step cfg who s = Next s1" and 2: "exec cfg sched s1 = Some s'"
    by (auto split: outcome.splits)
  from Cons.IH[OF Cons.prems(1) inv_step[OF Cons.prems(1,2) 1] 2] show ?case .
qed

lemma inv_reachable: "1 \<le> num_threads cfg \<Longrightarrow> reachable cfg s \<Longrightarrow> inv cfg s"
  unfolding reachable_def using inv_exec inv_start by blast

lemma after_join_joined: "after_join pc \<Longrightarrow> joined cfg pc = num_threads cfg \<and> launched cfg pc = num_threads cfg"
  by (cases pc) auto

lemma all_finished:
  assumes i: "inv cfg s" and a: "after_join (main_pc s)" and t: "t < num_threads cfg"
  shows "finished (threads s ! t)"
    and "if t < num_threads cfg - 1 then is_worker t (threads s ! t) else is_mutex_user t (threads s ! t)"
proof -
  from i t have "slot_ok cfg s t" unfolding inv_def by blast
  with after_join_joined[OF a, of cfg] t show "finished (threads s ! t)" 
    and "if t < num_threads cfg - 1 then is_worker t (threads s ! t) else is_mutex_user t (threads s ! t)"
    by (simp_all add: slot_ok_def)
qed

lemma incs_finished_worker: "finished th \<Longrightarrow> is_worker t th \<Longrightarrow> incs K th = K"
  by (cases th rule: finished.cases) auto

lemma incs_mutex_user: "is_mutex_user t th \<Longrightarrow> incs K th = 0"
  by (cases th) auto

lemma sum_list_workers:
  assumes n: "1 \<le> n" and len: "length ths = n"
    and w: "\<And>t. t < n - 1 \<Longrightarrow> f (ths ! t) = K" and u: "f (ths ! (n - 1)) = 0"
  shows "sum_list (map f ths) = (n - 1) * (K::nat)"
proof -
  from n obtain m where m: "n = Suc m" by (cases n) auto
  have "sum_list (map f ths) = (\<Sum>i = 0..<n. f (ths ! i))"
    unfolding sum_list_sum_nth using len by (intro sum.cong) auto
  also have "\<dots> = (\<Sum>i = 0..<m. f (ths ! i)) + f (ths ! m)" by (simp add: m)
  also have "(\<Sum>i = 0..<m. f (ths ! i)) = (\<Sum>i = 0..<m. K)"
    using w m by (intro sum.cong) auto
  finally show ?thesis using u m by simp
qed

lemma final_counter:
  assumes n: "1 \<le> num_threads cfg" and i: "inv cfg s" and a: "after_join (main_pc s)"
  shows "counter s = of_nat ((num_threads cfg - 1) * worker_iterations cfg)"
proof -
  let ?n = "num_threads cfg" and ?K = "worker_iterations cfg"
  from i have len: "length (threads s) = ?n"
    and cnt: "counter s = of_nat (sum_list (map (incs ?K) (threads s)))"
    unfolding inv_def by blast+
  have w: "incs ?K (threads s ! t) = ?K" if "t < ?n - 1" for t
  proof -
    from that have "t < ?n" by simp
    from all_finished[OF i a this] that show ?thesis by (auto intro: incs_finished_worker)
  qed
  have u: "incs ?K (threads s ! (?n - 1)) = 0"
    using all_finished(2)[OF i a, of "?n - 1"] n by (auto intro: incs_mutex_user)
  have "sum_list (map (incs ?K) (threads s)) = (?n - 1) * ?K"
    by (rule sum_list_workers[OF n len]) (use w u in auto)
  with cnt show ?thesis by simp
qed

lemma sint_of_nat_small: "m < 2 ^ 31 \<Longrightarrow> sint (of_nat m :: cint) = int m"
  by (simp add: signed_of_nat signed_take_bit_int_eq_self)

section \<open>The claims\<close>

lemmas exec_defs =
  sample_program_def start_def initial_array_def load_def deref_def
  pthread_mutex_lock_def pthread_mutex_unlock_def numeral_eq_Suc

lemma exec_sequential:
  "exec sample_program sequential_schedule (start sample_program 1 []) = Some sequential_final"
  by (simp add: sequential_schedule_def sequential_final_def exec_defs)

text \<open>
  C1. With \<open>num_threads - 1\<close> counter workers of \<open>worker_iterations\<close> iterations each,
  in every interleaving, once \<^verbatim>\<open>main\<close> has joined all threads the counter is the number
  of workers times the number of iterations: as a 32-bit value always, and as the signed
  \<^verbatim>\<open>int\<close> the program prints whenever that product fits into an \<^verbatim>\<open>int\<close>. No update is
  lost, although \<^verbatim>\<open>counter++\<close> is a read and a write that other threads may separate.
\<close>

theorem counter_no_lost_updates:
  assumes "1 \<le> num_threads cfg"
    and "exec cfg sched (start cfg ac av) = Some s"
    and "after_join (main_pc s)"
  shows "counter s = of_nat ((num_threads cfg - 1) * worker_iterations cfg) \<and>
         ((num_threads cfg - 1) * worker_iterations cfg < 2 ^ 31 \<longrightarrow>
          sint (counter s) = int ((num_threads cfg - 1) * worker_iterations cfg))"
proof -
  from assms(2) have "reachable cfg s" unfolding reachable_def by blast
  from final_counter[OF assms(1) inv_reachable[OF assms(1) this] assms(3)]
  show ?thesis using sint_of_nat_small[of "(num_threads cfg - 1) * worker_iterations cfg"]
    by (simp del: of_nat_mult)
qed

theorem counter_no_lost_updates_witness:
  "1 \<le> num_threads sample_program \<and>
   exec sample_program sequential_schedule (start sample_program 1 []) = Some sequential_final \<and>
   after_join (main_pc sequential_final) \<and>
   sint (counter sequential_final) = 15"
proof -
  have n: "1 \<le> num_threads sample_program" by (simp add: sample_program_def)
  have a: "after_join (main_pc sequential_final)" by (simp add: sequential_final_def)
  from counter_no_lost_updates[OF n exec_sequential a] n a exec_sequential
  show ?thesis by (simp add: sample_program_def)
qed

lemma exec_append:
  "exec cfg (xs @ ys) s = (case exec cfg xs s of None \<Rightarrow> None | Some s' \<Rightarrow> exec cfg ys s')"
  by (induction xs arbitrary: s) (auto split: outcome.splits)

lemma exec_launched:
  "exec sample_program (replicate 13 Main) (start sample_program 1 []) = Some launched_state"
  by (simp add: launched_state_def exec_defs)

lemma exec_racing:
  "exec sample_program (replicate 7 (Thread 3)) launched_state = Some racing_state"
  by (simp add: launched_state_def racing_state_def exec_defs)

lemma exec_sleeping:
  "exec sample_program (replicate 2 (Thread 3)) launched_state = Some sleeping_state"
  by (simp add: launched_state_def sleeping_state_def exec_defs)

lemma exec_doubled:
  "exec sample_program (replicate 13 Main @ replicate 23 (Thread 3)) (start sample_program 1 []) =
     Some doubled_state"
proof -
  have "exec sample_program (replicate 23 (Thread 3)) launched_state = Some doubled_state"
    by (simp add: launched_state_def doubled_state_def exec_defs)
  then show ?thesis by (simp add: exec_append exec_launched)
qed

lemma exec_joined:
  "exec sample_program joined_schedule (start sample_program 1 []) = Some joined_state"
  by (simp add: joined_schedule_def joined_state_def exec_defs)

lemma reachableI: "exec cfg sched (start cfg ac av) = Some s \<Longrightarrow> reachable cfg s"
  unfolding reachable_def by blast

text \<open>
  C2, as stated, fails. \<^verbatim>\<open>main\<close> makes its first call of \<^verbatim>\<open>calculate_sum\<close> after it has
  launched the four threads, not before: thirteen steps of \<^verbatim>\<open>main\<close> launch them, and
  seven steps of the array worker then bring it to the write of \<^verbatim>\<open>array[0]\<close>, with
  \<^verbatim>\<open>main\<close> about to read the array for its first sum.
\<close>

theorem first_reduction_before_launch_counterexample:
  "exec sample_program (replicate 13 Main @ replicate 7 (Thread 3)) (start sample_program 1 []) =
     Some racing_state \<and>
   main_pc racing_state = M_calculate_sum1 0 0 \<and>
   threads racing_state =
     [Worker_thread 0 (W_for 0), Worker_thread 1 (W_for 0), Worker_thread 2 (W_for 0),
      Mutex_user_thread 3 (U_store 0 1)]"
  by (simp add: exec_append exec_launched exec_racing) (simp add: racing_state_def)

text \<open>
  C2, amended. In every interleaving, while \<^verbatim>\<open>main\<close> is in its first call of
  \<^verbatim>\<open>calculate_sum\<close> every thread has been launched (so the call runs together with the
  workers, the array worker among them), and while it is in its second call every thread
  has returned and been joined.
\<close>

theorem reductions_after_launch_and_after_join:
  assumes "1 \<le> num_threads cfg"
    and "exec cfg sched (start cfg ac av) = Some s"
    and "t < num_threads cfg"
  shows "(main_pc s = M_calculate_sum1 i acc \<longrightarrow> threads s ! t \<noteq> Not_created) \<and>
         (main_pc s = M_calculate_sum2 i acc \<longrightarrow> finished (threads s ! t))"
proof -
  from inv_reachable[OF assms(1) reachableI[OF assms(2)]] assms(3)
  have "slot_ok cfg s t" unfolding inv_def by blast
  with assms(3) show ?thesis by (auto simp: slot_ok_def split: if_splits)
qed

theorem reductions_after_launch_and_after_join_witness:
  "1 \<le> num_threads sample_program \<and> (3::nat) < num_threads sample_program \<and>
   exec sample_program (replicate 13 Main) (start sample_program 1 []) = Some launched_state \<and>
   main_pc launched_state = M_calculate_sum1 0 0 \<and>
   threads launched_state ! 3 \<noteq> Not_created \<and>
   exec sample_program joined_schedule (start sample_program 1 []) = Some joined_state \<and>
   main_pc joined_state = M_calculate_sum2 1 2 \<and>
   finished (threads joined_state ! 3)"
proof -
  have n: "1 \<le> num_threads sample_program" and t: "(3::nat) < num_threads sample_program"
    by (simp_all add: sample_program_def)
  have pc1: "main_pc launched_state = M_calculate_sum1 0 0" by (simp add: launched_state_def)
  have pc2: "main_pc joined_state = M_calculate_sum2 1 2" by (simp add: joined_state_def)
  from reductions_after_launch_and_after_join[OF n exec_launched t, of 0 0]
    reductions_after_launch_and_after_join[OF n exec_joined t, of 1 2]
    pc1 pc2 n t exec_launched exec_joined
  show ?thesis by simp
qed

text \<open>
  C3, as stated, fails. The array worker sleeps in \<^verbatim>\<open>usleep(10000)\<close> right after it has
  locked \<^verbatim>\<open>mutex1\<close>: two steps after its launch it is in the delay and owns \<^verbatim>\<open>mutex1\<close>.
\<close>

theorem delay_without_lock_counterexample:
  "exec sample_program (replicate 13 Main @ replicate 2 (Thread 3)) (start sample_program 1 []) =
     Some sleeping_state \<and>
   threads sleeping_state ! 3 = Mutex_user_thread 3 U_usleep \<and>
   mutex1 sleeping_state = Some 3"
  by (simp add: exec_append exec_launched exec_sleeping) (simp add: sleeping_state_def)

text \<open>
  C3, amended. In every interleaving, whenever the array worker is in its delay it holds
  \<^verbatim>\<open>mutex1\<close> and does not hold \<^verbatim>\<open>mutex2\<close>: the delay lies between the two lock
  acquisitions.
\<close>

theorem delay_holds_mutex1_only:
  assumes "1 \<le> num_threads cfg"
    and "exec cfg sched (start cfg ac av) = Some s"
    and "load (threads s) t = Some (Mutex_user_thread arg U_usleep)"
  shows "mutex1 s = Some t \<and> mutex2 s \<noteq> Some t"
proof -
  note i = inv_reachable[OF assms(1) reachableI[OF assms(2)]]
  from i have len: "length (threads s) = num_threads cfg" unfolding inv_def by blast
  with assms(3) have t: "t < num_threads cfg" and th: "threads s ! t = Mutex_user_thread arg U_usleep"
    by (auto simp: load_def split: if_splits)
  from inv_user_facts(1,4,5)[OF assms(1) i t th] show ?thesis by simp
qed

theorem delay_holds_mutex1_only_witness:
  "1 \<le> num_threads sample_program \<and>
   exec sample_program (replicate 13 Main @ replicate 2 (Thread 3)) (start sample_program 1 []) =
     Some sleeping_state \<and>
   load (threads sleeping_state) 3 = Some (Mutex_user_thread 3 U_usleep) \<and>
   mutex1 sleeping_state = Some 3 \<and> mutex2 sleeping_state \<noteq> Some 3"
proof -
  have n: "1 \<le> num_threads sample_program" by (simp add: sample_program_def)
  have e: "exec sample_program (replicate 13 Main @ replicate 2 (Thread 3)) (start sample_program 1 []) =
     Some sleeping_state" by (simp add: exec_append exec_launched exec_sleeping)
  have l: "load (threads sleeping_state) 3 = Some (Mutex_user_thread 3 U_usleep)"
    by (simp add: sleeping_state_def load_def)
  from delay_holds_mutex1_only[OF n e l] n e l show ?thesis by simp
qed

text \<open>The array is changed only by the array worker, and only in its first five elements.\<close>

lemma main_step_array: "step cfg Main s = Next s' \<Longrightarrow> array s' = array s"
  by (cases "main_pc s") (auto simp: load_def split: if_splits option.splits thread.splits)

lemma thread_step_array:
  assumes i: "inv cfg s" and t: "t < num_threads cfg" and ts: "thread_step cfg s t s'"
    and nu: "t \<noteq> num_threads cfg - 1"
  shows "array s' = array s"
proof -
  from i t have sl: "slot_ok cfg s t" and mok: "main_ok cfg (main_pc s)" unfolding inv_def by blast+
  from ts obtain arr where "array s' = arr" "arr = array s \<or> is_mutex_user t (threads s ! t)"
    unfolding thread_step_def by auto
  with mutex_user_last[OF sl _ t mok] nu show ?thesis by auto
qed

lemma inv_array:
  assumes n: "1 \<le> num_threads cfg" and i: "inv cfg s"
  shows "\<exists>k\<le>5. array s = doubled k"
    and "finished (threads s ! (num_threads cfg - 1)) \<Longrightarrow> array s = doubled 5"
proof -
  let ?u = "num_threads cfg - 1"
  from n have u: "?u < num_threads cfg" by simp
  from i u have sl: "slot_ok cfg s ?u"
    and ok: "thread_ok (worker_iterations cfg) (counter s) (array s) (threads s ! ?u)"
    and ar: "launched cfg (main_pc s) < num_threads cfg \<longrightarrow> array s = initial_array"
    and mok: "main_ok cfg (main_pc s)"
    unfolding inv_def by blast+
  show "\<exists>k\<le>5. array s = doubled k"
  proof (cases "launched cfg (main_pc s) < num_threads cfg")
    case True
    with ar have "array s = doubled 0" by simp
    then show ?thesis by blast
  next
    case False
    with launched_le[OF mok] sl u obtain arg pc where th: "threads s ! ?u = Mutex_user_thread arg pc"
      by (cases "threads s ! ?u") (auto simp: slot_ok_def)
    with ok have "user_ok (array s) pc" by simp
    then show ?thesis by (cases pc) (auto intro: exI[of _ 0] less_imp_le)
  qed
  show "array s = doubled 5" if "finished (threads s ! ?u)"
  proof -
    from sl u that have "is_mutex_user ?u (threads s ! ?u)"
      by (cases "threads s ! ?u" rule: finished.cases) (auto simp: slot_ok_def split: if_splits)
    with that obtain arg r where th: "threads s ! ?u = Mutex_user_thread arg (U_return r)"
      by (cases "threads s ! ?u" rule: finished.cases) auto
    with ok show ?thesis by simp
  qed
qed

lemma doubled_5: "doubled 5 = [2, 4, 6, 8, 10, 6, 7, 8, 9, 10]"
  by (simp add: doubled_def initial_array_def)

lemma drop_5_doubled: "k \<le> 5 \<Longrightarrow> drop 5 (doubled k) = [6, 7, 8, 9, 10]"
  by (simp add: doubled_def initial_array_def)

text \<open>
  C4. In every interleaving, once the array worker has returned the array is
  \<open>2, 4, 6, 8, 10, 6, 7, 8, 9, 10\<close>: the first five elements doubled, the last five as
  they were. At every moment the array has ten elements and the last five are unchanged,
  and no step of \<^verbatim>\<open>main\<close> or of a counter worker changes the array.
\<close>

theorem array_first_half_doubled:
  assumes "1 \<le> num_threads cfg"
    and "exec cfg sched (start cfg ac av) = Some s"
  shows "(finished (threads s ! (num_threads cfg - 1)) \<longrightarrow>
            array s = [2, 4, 6, 8, 10, 6, 7, 8, 9, 10]) \<and>
         length (array s) = 10 \<and> drop 5 (array s) = [6, 7, 8, 9, 10] \<and>
         (who \<noteq> Thread (num_threads cfg - 1) \<longrightarrow> step cfg who s = Next s' \<longrightarrow> array s' = array s)"
proof -
  note i = inv_reachable[OF assms(1) reachableI[OF assms(2)]]
  from inv_array(1)[OF assms(1) i] obtain k where k: "k \<le> 5" "array s = doubled k" by blast
  have "array s' = array s" if w: "who \<noteq> Thread (num_threads cfg - 1)" and st: "step cfg who s = Next s'"
  proof (cases who)
    case Main
    with st main_step_array show ?thesis by simp
  next
    case (Thread t)
    with step_Thread[OF assms(1) i] st have "t < num_threads cfg" "thread_step cfg s t s'" by auto
    from thread_step_array[OF i this] w Thread show ?thesis by simp
  qed
  with inv_array(2)[OF assms(1) i] k show ?thesis
    by (simp add: doubled_5 drop_5_doubled)
qed

theorem array_first_half_doubled_witness:
  "1 \<le> num_threads sample_program \<and>
   exec sample_program (replicate 13 Main @ replicate 23 (Thread 3)) (start sample_program 1 []) =
     Some doubled_state \<and>
   finished (threads doubled_state ! (num_threads sample_program - 1)) \<and>
   array doubled_state = [2, 4, 6, 8, 10, 6, 7, 8, 9, 10] \<and>
   Thread 0 \<noteq> Thread (num_threads sample_program - 1) \<and>
   step sample_program (Thread 0) doubled_state =
     Next (doubled_state\<lparr>threads := (threads doubled_state)[0 := Worker_thread 0 (W_lock 0)]\<rparr>) \<and>
   array (doubled_state\<lparr>threads := (threads doubled_state)[0 := Worker_thread 0 (W_lock 0)]\<rparr>) =
     array doubled_state"
proof -
  have n: "1 \<le> num_threads sample_program" and w: "Thread 0 \<noteq> Thread (num_threads sample_program - 1)"
    by (simp_all add: sample_program_def)
  have f: "finished (threads doubled_state ! (num_threads sample_program - 1))"
    by (simp add: doubled_state_def sample_program_def)
  have st: "step sample_program (Thread 0) doubled_state =
     Next (doubled_state\<lparr>threads := (threads doubled_state)[0 := Worker_thread 0 (W_lock 0)]\<rparr>)"
    by (simp add: doubled_state_def load_def deref_def)
  from array_first_half_doubled[OF n exec_doubled, of "Thread 0"] n w f exec_doubled st
  show ?thesis by simp
qed

lemma calculate_sum_loop_eq:
  "size' \<le> int (length arr) \<Longrightarrow>
   calculate_sum_loop arr size' i acc = Some (acc + sum_list (drop i (take (nat size') arr)))"
proof (induction arr size' i acc rule: calculate_sum_loop.induct)
  case (1 arr size' i acc)
  show ?case
  proof (cases "int i < size'")
    case True
    with "1.prems" have l: "i < length arr" "i < length (take (nat size') arr)" by auto
    then have d: "drop i (take (nat size') arr) = arr ! i # drop (Suc i) (take (nat size') arr)"
      by (simp add: Cons_nth_drop_Suc [symmetric])
    from True l have "load arr i = Some (arr ! i)" by (simp add: load_def)
    with "1.IH"[OF True this "1.prems"] True d show ?thesis
      by (subst calculate_sum_loop.simps) (simp add: add.assoc)
  next
    case False
    then have "drop i (take (nat size') arr) = []" by auto
    with False show ?thesis by (subst calculate_sum_loop.simps) simp
  qed
qed

lemma calculate_sum_eq:
  "size' \<le> int (length arr) \<Longrightarrow> calculate_sum arr size' = Some (sum_list (take (nat size') arr))"
  by (simp add: calculate_sum_def calculate_sum_loop_eq)

lemma sum_list_word_of_int: "sum_list xs = (word_of_int (sum_list (map sint xs)) :: cint)"
  by (induction xs) simp_all

lemma sint_sum_list:
  assumes "- (2 ^ 31) \<le> sum_list (map sint xs)" "sum_list (map sint xs) < 2 ^ 31"
  shows "sint (sum_list xs :: cint) = sum_list (map sint xs)"
proof -
  have "sint (sum_list xs) = sint (word_of_int (sum_list (map sint xs)) :: cint)"
    using sum_list_word_of_int[of xs] by simp
  also have "\<dots> = signed_take_bit 31 (sum_list (map sint xs))"
    by (simp add: signed_of_int)
  also have "\<dots> = sum_list (map sint xs)"
    using assms by (simp add: signed_take_bit_int_eq_self)
  finally show ?thesis .
qed

text \<open>
  C6. \<^verbatim>\<open>calculate_sum\<close> is a function of its two arguments alone. Called with a size
  that does not exceed the array it returns the sum of the first \<open>size\<close> elements (none
  of them if the size is not positive), in 32-bit arithmetic; two arrays with the same
  multiset of values, summed in full, give the same result; and the result is the exact
  arithmetic sum whenever that sum fits into an \<^verbatim>\<open>int\<close>.
\<close>

theorem calculate_sum_order_independent:
  assumes "mset xs = mset ys"
  shows "(n \<le> int (length xs) \<longrightarrow> calculate_sum xs n = Some (sum_list (take (nat n) xs))) \<and>
         calculate_sum ys (int (length ys)) = calculate_sum xs (int (length xs)) \<and>
         (- (2 ^ 31) \<le> sum_list (map sint xs) \<and> sum_list (map sint xs) < 2 ^ 31 \<longrightarrow>
          sint (sum_list xs) = sum_list (map sint xs))"
proof -
  from assms have "sum_list ys = sum_list xs"
    by (metis sum_mset_sum_list)
  then have "calculate_sum ys (int (length ys)) = calculate_sum xs (int (length xs))"
    by (simp add: calculate_sum_eq)
  then show ?thesis
    using sint_sum_list[of xs] by (simp add: calculate_sum_eq)
qed

theorem calculate_sum_order_independent_witness:
  "mset [1, 2, 3 :: cint] = mset [3, 1, 2] \<and>
   (2::int) \<le> int (length [1, 2, 3 :: cint]) \<and>
   calculate_sum [1, 2, 3] 2 = Some 3 \<and>
   calculate_sum [1, 2, 3] (int (length [1, 2, 3 :: cint])) = Some 6 \<and>
   calculate_sum [3, 1, 2] (int (length [3, 1, 2 :: cint])) = Some 6 \<and>
   sint (sum_list [1, 2, 3 :: cint]) = 6"
proof -
  have m: "mset [1, 2, 3 :: cint] = mset [3, 1, 2]" by simp
  from calculate_sum_order_independent[OF m, of 2]
  have a: "(2::int) \<le> int (length [1, 2, 3 :: cint]) \<and> calculate_sum [1, 2, 3] 2 = Some 3"
    by simp
  from calculate_sum_order_independent[OF m, of 3]
  have b: "calculate_sum [1, 2, 3] (int (length [1, 2, 3 :: cint])) = Some 6 \<and>
   calculate_sum [3, 1, 2] (int (length [3, 1, 2 :: cint])) = Some 6 \<and>
   sint (sum_list [1, 2, 3 :: cint]) = 6"
    by simp
  from a b have "(2::int) \<le> int (length [1, 2, 3 :: cint]) \<and>
   calculate_sum [1, 2, 3] 2 = Some 3 \<and>
   calculate_sum [1, 2, 3] (int (length [1, 2, 3 :: cint])) = Some 6 \<and>
   calculate_sum [3, 1, 2] (int (length [3, 1, 2 :: cint])) = Some 6 \<and>
   sint (sum_list [1, 2, 3 :: cint]) = 6"
    by blast
  with m show ?thesis by (rule conjI)
qed

text \<open>
  C9. For every array, the empty one included, and every size \<open>n \<le> 0\<close>,
  \<^verbatim>\<open>calculate_sum\<close> returns 0. No element is read: a read outside the array has no result
  in the model, and the empty array has no element to read.
\<close>

theorem calculate_sum_empty:
  assumes "size' \<le> 0"
  shows "calculate_sum arr size' = Some 0"
  unfolding calculate_sum_def using assms by (subst calculate_sum_loop.simps) simp

theorem calculate_sum_empty_witness:
  "(-3::int) \<le> 0 \<and> calculate_sum [] (-3) = Some 0 \<and> calculate_sum [7, 8] 0 = Some 0"
  using calculate_sum_empty[of "-3" "[]"] calculate_sum_empty[of 0 "[7, 8]"] by simp

text \<open>
  C10. A worker whose descriptor has \<open>iterations \<le> 0\<close> takes one step, the test of its
  loop, and has then returned \<^verbatim>\<open>NULL\<close>. The state after that step is the state before it
  with the control point of this thread alone changed: the counter, the array and both
  mutexes are what they were. The thread takes no further step.
\<close>

theorem worker_without_iterations:
  assumes "load (threads s) t = Some (Worker_thread arg (W_for 0))"
    and "deref (thread_data s) arg = Some data"
    and "iterations data \<le> 0"
  shows "worker_thread t arg (W_for 0) s = Next (W_return NULL, s) \<and>
         step cfg (Thread t) s =
           Next (s\<lparr>threads := (threads s)[t := Worker_thread arg (W_return NULL)]\<rparr>) \<and>
         step cfg (Thread t) (s\<lparr>threads := (threads s)[t := Worker_thread arg (W_return NULL)]\<rparr>) =
           Disabled"
  using assms by (auto simp: load_def split: if_splits)


theorem worker_without_iterations_witness:
  "load (threads idle_worker_state) 0 = Some (Worker_thread 0 (W_for 0)) \<and>
   deref (thread_data idle_worker_state) 0 = Some \<lparr>id' = 1, iterations = - 2\<rparr> \<and>
   iterations \<lparr>id' = 1, iterations = - 2\<rparr> \<le> 0 \<and>
   step sample_program (Thread 0) idle_worker_state =
     Next (idle_worker_state\<lparr>threads := [Worker_thread 0 (W_return NULL)]\<rparr>) \<and>
   counter (idle_worker_state\<lparr>threads := [Worker_thread 0 (W_return NULL)]\<rparr>) = 7"
proof -
  have l: "load (threads idle_worker_state) 0 = Some (Worker_thread 0 (W_for 0))"
    and d: "deref (thread_data idle_worker_state) 0 = Some \<lparr>id' = 1, iterations = - 2\<rparr>"
    and i: "iterations \<lparr>id' = 1, iterations = - 2\<rparr> \<le> 0"
    by (simp_all add: idle_worker_state_def load_def deref_def)
  from worker_without_iterations[OF l d i, of sample_program] l d i
  show ?thesis by (simp add: idle_worker_state_def)
qed

text \<open>No step of any thread reads or writes \<^verbatim>\<open>argc\<close> or \<^verbatim>\<open>argv\<close>.\<close>

lemma worker_thread_args:
  "worker_thread t arg pc (s\<lparr>argc := a, argv := v\<rparr>) =
   map_outcome (\<lambda>(pc', s'). (pc', s'\<lparr>argc := a, argv := v\<rparr>)) (worker_thread t arg pc s)"
  by (cases pc)
    (auto simp: pthread_mutex_lock_def pthread_mutex_unlock_def split: option.splits)

lemma mutex_user_thread_args:
  "mutex_user_thread t arg pc (s\<lparr>argc := a, argv := v\<rparr>) =
   map_outcome (\<lambda>(pc', s'). (pc', s'\<lparr>argc := a, argv := v\<rparr>)) (mutex_user_thread t arg pc s)"
  by (cases pc)
    (auto simp: pthread_mutex_lock_def pthread_mutex_unlock_def split: option.splits)

lemma main_thread_args:
  "main_thread cfg pc (s\<lparr>argc := a, argv := v\<rparr>) =
   map_outcome (\<lambda>(pc', s'). (pc', s'\<lparr>argc := a, argv := v\<rparr>)) (main_thread cfg pc s)"
  by (cases pc) (auto split: option.splits thread.splits)

lemma and_then_map_outcome:
  "and_then (map_outcome f x) g = and_then x (\<lambda>y. g (f y))"
  by (cases x) auto

lemma map_outcome_and_then:
  "map_outcome f (and_then x g) = and_then x (\<lambda>y. map_outcome f (g y))"
  by (cases x) auto

lemma step_args:
  "step cfg who (s\<lparr>argc := a, argv := v\<rparr>) =
   map_outcome (\<lambda>s'. s'\<lparr>argc := a, argv := v\<rparr>) (step cfg who s)"
proof (cases who)
  case Main
  then show ?thesis
    by (cases "main_thread cfg (main_pc s) s") (auto simp: main_thread_args)
next
  case (Thread t)
  show ?thesis
  proof (cases "load (threads s) t")
    case None
    with Thread show ?thesis by simp
  next
    case (Some th)
    show ?thesis
    proof (cases th)
      case Not_created
      with Thread Some show ?thesis by simp
    next
      case (Worker_thread arg pc)
      with Thread Some show ?thesis
        by (cases "worker_thread t arg pc s") (auto simp: worker_thread_args)
    next
      case (Mutex_user_thread arg pc)
      with Thread Some show ?thesis
        by (cases "mutex_user_thread t arg pc s") (auto simp: mutex_user_thread_args)
    qed
  qed
qed

lemma exec_args:
  "exec cfg sched (s\<lparr>argc := a, argv := v\<rparr>) =
   map_option (\<lambda>s'. s'\<lparr>argc := a, argv := v\<rparr>) (exec cfg sched s)"
proof (induction sched arbitrary: s)
  case Nil
  show ?case by simp
next
  case (Cons who sched)
  show ?case
    by (cases "step cfg who s") (simp_all add: step_args Cons.IH)
qed

text \<open>
  C8. For any two argument vectors and every schedule, the two runs of the program either
  both cannot follow the schedule, or both can and end in states that differ in nothing
  but the stored arguments: the same globals, the same threads, the same output and the
  same return value of \<^verbatim>\<open>main\<close>.
\<close>

theorem arguments_ignored:
  "map_option observable (exec cfg sched (start cfg ac av)) =
   map_option observable (exec cfg sched (start cfg ac' av'))"
proof -
  have "start cfg ac av = (start cfg ac' av')\<lparr>argc := ac, argv := av\<rparr>"
    by (simp add: start_def)
  then show ?thesis
    unfolding observable_def by (simp add: exec_args option.map_comp comp_def)
qed

lemma exec_late_sum:
  "exec sample_program late_sum_schedule (start sample_program 1 []) = Some late_sum_final"
  by (simp add: late_sum_schedule_def late_sum_final_def exec_defs)

lemma less_10_cases: "i < 10 \<Longrightarrow> i \<in> {0, 1, 2, 3, 4, 5, 6, 7, 8, 9::nat}"
  by auto

lemma unat_initial: "i < 10 \<Longrightarrow> unat (initial_array ! i) = Suc i"
  using less_10_cases[of i] by (auto simp: initial_array_def)

lemma unat_initial_twice: "i < 10 \<Longrightarrow> unat (initial_array ! i * 2) = 2 * Suc i"
  using less_10_cases[of i] by (auto simp: initial_array_def)

lemma doubled_nth:
  "i < 10 \<Longrightarrow> doubled k ! i = (if i < k then initial_array ! i * 2 else initial_array ! i)"
  by (auto simp: doubled_def nth_append min_def)

lemma unat_doubled:
  "i < 10 \<Longrightarrow> unat (doubled k ! i) = (if i < k then 2 * Suc i else Suc i)"
  by (simp add: doubled_nth unat_initial unat_initial_twice)

lemma sum_lo_Suc: "i < 10 \<Longrightarrow> sum_lo (Suc i) = sum_lo i + Suc i"
  by (simp add: sum_lo_def take_Suc_conv_app_nth unat_initial)

lemma sum_hi_Suc: "i < 10 \<Longrightarrow> sum_hi (Suc i) = sum_hi i + (if i < 5 then 2 * Suc i else Suc i)"
  by (simp add: sum_hi_def take_Suc_conv_app_nth unat_doubled)

lemma sum_lo_10: "sum_lo 10 = 55"
  by (simp add: sum_lo_def initial_array_def)

lemma sum_hi_10: "sum_hi 10 = 70"
  by (simp add: sum_hi_def doubled_5)

lemma sum_hi_le: "i \<le> 10 \<Longrightarrow> sum_hi i \<le> 70"
proof -
  assume "i \<le> 10"
  have "sum_hi i \<le> sum_hi 10"
    unfolding sum_hi_def
    by (metis append_take_drop_id le_add1 length_doubled map_append sum_list_append take_all_iff
        order_refl)
  then show ?thesis by (simp add: sum_hi_10)
qed


lemma out_inv_thread_step:
  assumes "thread_step cfg s t s'" and "out_inv cfg s"
  shows "out_inv cfg s'"
proof -
  from assms(1) obtain m1 m2 c arr out th' where
    "s' = s\<lparr>mutex1 := m1, mutex2 := m2, counter := c, array := arr, stdout := out,
                threads := (threads s)[t := th']\<rparr>"
    "main_lines out = main_lines (stdout s)"
    unfolding thread_step_def by blast
  with assms(2) show ?thesis by (simp add: out_inv_def)
qed

lemma inv_length_array: "1 \<le> num_threads cfg \<Longrightarrow> inv cfg s \<Longrightarrow> length (array s) = 10"
  using inv_array(1)[of cfg s] by auto

lemma sum_step_bounds:
  assumes i: "i < 10" and k: "k \<le> 5"
    and lo: "sum_lo i \<le> unat acc" and hi: "unat acc \<le> sum_hi i"
  shows "sum_lo (Suc i) \<le> unat (acc + doubled k ! i) \<and> unat (acc + doubled k ! i) \<le> sum_hi (Suc i)"
proof -
  let ?v = "doubled k ! i"
  from i have v: "unat ?v = (if i < k then 2 * Suc i else Suc i)" by (rule unat_doubled)
  from i hi sum_hi_le[of i] have "unat acc \<le> 70" by simp
  with v i have "unat acc + unat ?v < 2 ^ LENGTH(32)" by (simp split: if_splits)
  then have "unat (acc + ?v) = unat acc + unat ?v" by (simp only: unat_add_lem)
  with v lo hi i k show ?thesis by (simp add: sum_lo_Suc sum_hi_Suc)
qed

lemma out_inv_main:
  assumes n: "1 \<le> num_threads cfg" and i: "inv cfg s" and o: "out_inv cfg s"
    and st: "step cfg Main s = Next s'"
  shows "out_inv cfg s'"
proof -
  from i have len: "length (threads s) = num_threads cfg" "length (thread_data s) = num_threads cfg"
    and mok: "main_ok cfg (main_pc s)"
    unfolding inv_def by blast+
  note la = inv_length_array[OF n i]
  show ?thesis
  proof (cases "main_pc s")
    case M_printf_start
    with st have "s' = s\<lparr>stdout := stdout s @ [Starting], main_pc := M_for_create 0\<rparr>" by simp
    with o M_printf_start show ?thesis by (simp add: out_inv_def)
  next
    case (M_for_create j)
    with st have "s' = s\<lparr>main_pc := (if int j < int (num_threads cfg) - 1 then M_set_data j else M_set_user_data)\<rparr>" by simp
    with o M_for_create show ?thesis by (simp add: out_inv_def)
  next
    case (M_set_data j)
    with mok len have "j < length (thread_data s)" by simp
    with st M_set_data have "s' = s\<lparr>thread_data := (thread_data s)[j := Some \<lparr>id' = int j + 1, iterations = int (worker_iterations cfg)\<rparr>], main_pc := M_create j\<rparr>"
      by simp
    with o M_set_data show ?thesis by (simp add: out_inv_def)
  next
    case (M_create j)
    with mok len have "j < length (threads s)" by simp
    with st M_create have "s' = s\<lparr>threads := (threads s)[j := Worker_thread j (W_for 0)], main_pc := M_for_create (j + 1)\<rparr>"
      by simp
    with o M_create show ?thesis by (simp add: out_inv_def)
  next
    case M_set_user_data
    from len n have "0 \<le> int (num_threads cfg) - 1 \<and> num_threads cfg - 1 < length (thread_data s)" by simp
    with st M_set_user_data have "s' = s\<lparr>thread_data := (thread_data s)[num_threads cfg - 1 := Some \<lparr>id' = int (num_threads cfg), iterations = 1\<rparr>], main_pc := M_create_user\<rparr>"
      by simp
    with o M_set_user_data show ?thesis by (simp add: out_inv_def)
  next
    case M_create_user
    from len n have "0 \<le> int (num_threads cfg) - 1 \<and> num_threads cfg - 1 < length (threads s)" by simp
    with st M_create_user have "s' = s\<lparr>threads := (threads s)[num_threads cfg - 1 := Mutex_user_thread (num_threads cfg - 1) U_lock1], main_pc := M_calculate_sum1 0 0\<rparr>"
      by simp
    with o M_create_user show ?thesis by (simp add: out_inv_def sum_lo_def sum_hi_def)
  next
    case (M_calculate_sum1 j acc)
    from o M_calculate_sum1 have b: "main_lines (stdout s) = [Starting]" "j \<le> 10"
      "sum_lo j \<le> unat acc" "unat acc \<le> sum_hi j"
      by (simp_all add: out_inv_def)
    show ?thesis
    proof (cases "j < 10")
      case True
      from inv_array(1)[OF n i] obtain k where k: "k \<le> 5" "array s = doubled k" by blast
      with True have "load (array s) j = Some (doubled k ! j)" by (simp add: load_def)
      with st M_calculate_sum1 True
      have "s' = s\<lparr>main_pc := M_calculate_sum1 (j + 1) (acc + doubled k ! j)\<rparr>" by simp
      with sum_step_bounds[OF True k(1) b(3,4)] b(1) True show ?thesis
        by (simp add: out_inv_def)
    next
      case False
      with b(2) have j: "j = 10" by simp
      with st M_calculate_sum1 have "s' = s\<lparr>main_pc := M_printf_initial acc\<rparr>" by simp
      with b j show ?thesis by (simp add: out_inv_def sum_lo_10 sum_hi_10)
    qed
  next
    case (M_printf_initial acc)
    with st have "s' = s\<lparr>stdout := stdout s @ [Initial_sum acc], main_pc := M_for_join 0\<rparr>" by simp
    with o M_printf_initial show ?thesis by (simp add: out_inv_def initial_report_def)
  next
    case (M_for_join j)
    with st have "s' = s\<lparr>main_pc := (if int j < int (num_threads cfg) then M_join j else M_calculate_sum2 0 0)\<rparr>" by simp
    with o M_for_join show ?thesis by (simp add: out_inv_def)
  next
    case (M_join j)
    with st have "s' = s\<lparr>main_pc := M_for_join (j + 1)\<rparr>"
      by (simp add: load_def split: if_splits option.splits thread.splits)
    with o M_join show ?thesis by (simp add: out_inv_def)
  next
    case (M_calculate_sum2 j acc)
    from o M_calculate_sum2 have b: "initial_report (main_lines (stdout s))" "j \<le> 10"
      "acc = sum_list (take j (doubled 5))"
      by (simp_all add: out_inv_def)
    from M_calculate_sum2 have "after_join (main_pc s)" by simp
    from all_finished(1)[OF i this, of "num_threads cfg - 1"] n
    have "finished (threads s ! (num_threads cfg - 1))" by simp
    from inv_array(2)[OF n i this] have ar: "array s = doubled 5" .
    show ?thesis
    proof (cases "j < 10")
      case True
      with ar have "load (array s) j = Some (doubled 5 ! j)" by (simp add: load_def)
      with st M_calculate_sum2 True
      have "s' = s\<lparr>main_pc := M_calculate_sum2 (j + 1) (acc + doubled 5 ! j)\<rparr>" by simp
      with b True show ?thesis
        by (simp add: out_inv_def take_Suc_conv_app_nth)
    next
      case False
      with b(2) have j: "j = 10" by simp
      with st M_calculate_sum2 have "s' = s\<lparr>main_pc := M_printf_counter acc\<rparr>" by simp
      with b j show ?thesis by (simp add: out_inv_def doubled_5)
    qed
  next
    case (M_printf_counter acc)
    then have "after_join (main_pc s)" by simp
    note c = final_counter[OF n i this]
    from st M_printf_counter
    have "s' = s\<lparr>stdout := stdout s @ [Final_counter (counter s)], main_pc := M_printf_sum acc\<rparr>" by simp
    with o M_printf_counter c show ?thesis by (simp add: out_inv_def del: of_nat_mult)
  next
    case (M_printf_sum acc)
    with st have "s' = s\<lparr>stdout := stdout s @ [Final_sum acc], main_pc := M_printf_completed\<rparr>" by simp
    with o M_printf_sum show ?thesis by (auto simp: out_inv_def)
  next
    case M_printf_completed
    with st have "s' = s\<lparr>stdout := stdout s @ [Completed], main_pc := M_return 0\<rparr>" by simp
    with o M_printf_completed show ?thesis by (auto simp: out_inv_def)
  next
    case (M_return r)
    with st show ?thesis by simp
  qed
qed

lemma out_inv_step:
  assumes n: "1 \<le> num_threads cfg" and i: "inv cfg s" and o: "out_inv cfg s"
    and st: "step cfg who s = Next s'"
  shows "out_inv cfg s'"
proof (cases who)
  case Main
  with out_inv_main[OF n i o] st show ?thesis by simp
next
  case (Thread t)
  with step_Thread[OF n i] st out_inv_thread_step[OF _ o] show ?thesis by blast
qed

lemma out_inv_exec:
  "1 \<le> num_threads cfg \<Longrightarrow> inv cfg s \<Longrightarrow> out_inv cfg s \<Longrightarrow> exec cfg sched s = Some s' \<Longrightarrow>
   out_inv cfg s'"
proof (induction sched arbitrary: s)
  case Nil
  then show ?case by simp
next
  case (Cons who sched)
  from Cons.prems(4) obtain s1 where 1: "step cfg who s = Next s1" and 2: "exec cfg sched s1 = Some s'"
    by (auto split: outcome.splits)
  from Cons.IH[OF Cons.prems(1) inv_step[OF Cons.prems(1,2) 1]
      out_inv_step[OF Cons.prems(1,2,3) 1] 2] show ?case .
qed

lemma out_inv_start: "out_inv cfg (start cfg ac av)"
  by (simp add: out_inv_def start_def)

lemma sint_between:
  assumes "55 \<le> unat (v :: cint)" "unat v \<le> 70"
  shows "55 \<le> sint v \<and> sint v \<le> 70"
proof -
  from assms(2) have "unat v < 2 ^ 31" by simp
  from sint_of_nat_small[OF this] have "sint v = int (unat v)" by simp
  moreover from assms have "(55::int) \<le> int (unat v)" "int (unat v) \<le> 70" by linarith+
  ultimately show ?thesis by linarith
qed

text \<open>
  C5, as stated, fails. The first sum is computed while the array worker may already be
  doubling the array. In the execution \<open>late_sum_schedule\<close> the array worker has
  finished before \<^verbatim>\<open>main\<close> reads the first element, and the program reports an initial
  sum of 70, not 55.
\<close>

theorem report_initial_sum_55_counterexample:
  "exec sample_program late_sum_schedule (start sample_program 1 []) = Some late_sum_final \<and>
   main_pc late_sum_final = M_return 0 \<and>
   main_lines (stdout late_sum_final) =
     [Starting, Initial_sum 70, Final_counter 15, Final_sum 70, Completed]"
  by (simp add: exec_late_sum) (simp add: late_sum_final_def main_lines_def)

text \<open>
  C5, amended. With the defaults (three counter workers of five iterations, one array
  worker), in every execution that ends, \<^verbatim>\<open>main\<close> writes exactly five lines: the start
  line, an initial sum that lies between 55 and 70, a final counter of 15, a final sum of
  70, and the completion line.
\<close>

theorem report_of_sample_program:
  assumes "exec sample_program sched (start sample_program ac av) = Some s"
    and "main_pc s = M_return r"
  shows "\<exists>v. main_lines (stdout s) =
           [Starting, Initial_sum v, Final_counter 15, Final_sum 70, Completed] \<and>
         55 \<le> sint v \<and> sint v \<le> 70"
proof -
  have n: "1 \<le> num_threads sample_program" by (simp add: sample_program_def)
  from inv_reachable[OF n reachableI[OF assms(1)]] have i: "inv sample_program (start sample_program ac av)"
    "inv sample_program s" using inv_start[OF n] by simp_all
  from out_inv_exec[OF n i(1) out_inv_start assms(1)] assms(2)
  obtain v where "main_lines (stdout s) =
      [Starting, Initial_sum v, Final_counter 15, Final_sum 70, Completed]"
    "55 \<le> unat v" "unat v \<le> 70"
    by (auto simp: out_inv_def initial_report_def sample_program_def)
  with sint_between[of v] show ?thesis by blast
qed

theorem report_of_sample_program_witness:
  "exec sample_program sequential_schedule (start sample_program 1 []) = Some sequential_final \<and>
   main_pc sequential_final = M_return 0 \<and>
   main_lines (stdout sequential_final) =
     [Starting, Initial_sum 55, Final_counter 15, Final_sum 70, Completed]"
proof -
  have pc: "main_pc sequential_final = M_return 0" by (simp add: sequential_final_def)
  from report_of_sample_program[OF exec_sequential pc] exec_sequential pc
  show ?thesis by (simp add: sequential_final_def main_lines_def)
qed

text \<open>Every step takes one from the steps that are left.\<close>

lemma sum_list_map_update_less:
  "t < length xs \<Longrightarrow> f (xs ! t) = f x + k \<Longrightarrow>
   sum_list (map f xs) = sum_list (map f (xs[t := x])) + (k::nat)"
  by (induction xs arbitrary: t) (auto split: nat.splits)

lemma remaining_thread_step:
  assumes i: "inv cfg s" and t: "t < num_threads cfg" and ts: "thread_step cfg s t s'"
  shows "remaining cfg s' + 1 = remaining cfg s"
proof -
  let ?K = "worker_iterations cfg"
  from i have len: "length (threads s) = num_threads cfg" unfolding inv_def by blast
  from ts obtain m1 m2 c arr out th' where
    s': "s' = s\<lparr>mutex1 := m1, mutex2 := m2, counter := c, array := arr, stdout := out,
                threads := (threads s)[t := th']\<rparr>"
    and r: "thread_rem ?K th' + 1 = thread_rem ?K (threads s ! t)"
    unfolding thread_step_def by blast
  from sum_list_map_update_less[of t "threads s" "thread_rem ?K" th' 1] len t r
  show ?thesis by (simp add: remaining_def s')
qed

lemma remaining_main_step:
  assumes n: "1 \<le> num_threads cfg" and i: "inv cfg s" and st: "step cfg Main s = Next s'"
  shows "remaining cfg s' + 1 = remaining cfg s"
proof -
  let ?K = "worker_iterations cfg"
  from i have len: "length (threads s) = num_threads cfg" "length (thread_data s) = num_threads cfg"
    and mok: "main_ok cfg (main_pc s)"
    unfolding inv_def by blast+
  note la = inv_length_array[OF n i]
  show ?thesis
  proof (cases "main_pc s")
    case M_printf_start
    with st have "s' = s\<lparr>stdout := stdout s @ [Starting], main_pc := M_for_create 0\<rparr>" by simp
    with M_printf_start show ?thesis by (simp add: remaining_def)
  next
    case (M_for_create j)
    with st have "s' = s\<lparr>main_pc := (if int j < int (num_threads cfg) - 1 then M_set_data j else M_set_user_data)\<rparr>" by simp
    with M_for_create show ?thesis by (auto simp: remaining_def)
  next
    case (M_set_data j)
    with mok len have "j < length (thread_data s)" by simp
    with st M_set_data have "s' = s\<lparr>thread_data := (thread_data s)[j := Some \<lparr>id' = int j + 1, iterations = int (worker_iterations cfg)\<rparr>], main_pc := M_create j\<rparr>"
      by simp
    with M_set_data show ?thesis by (simp add: remaining_def)
  next
    case (M_create j)
    with mok len have j: "j < length (threads s)" "j < num_threads cfg - 1" by simp_all
    with st M_create have s': "s' = s\<lparr>threads := (threads s)[j := Worker_thread j (W_for 0)], main_pc := M_for_create (j + 1)\<rparr>"
      by simp
    from inv_slot[OF i, of j] j M_create have nc: "threads s ! j = Not_created"
      by (simp add: slot_ok_def)
    from j obtain d where d: "num_threads cfg - 1 - j = Suc d" by (cases "num_threads cfg - 1 - j") auto
    then have d': "num_threads cfg - 1 - (j + 1) = d" by simp
    from sum_list_map_update[of j "threads s" "thread_rem ?K" "Worker_thread j (W_for 0)" "9 * ?K + 1"] j nc
    have "sum_list (map (thread_rem ?K) ((threads s)[j := Worker_thread j (W_for 0)])) =
          sum_list (map (thread_rem ?K) (threads s)) + (9 * ?K + 1)" by simp
    with M_create d d' show ?thesis by (simp add: remaining_def s')
  next
    case M_set_user_data
    from len n have "0 \<le> int (num_threads cfg) - 1 \<and> num_threads cfg - 1 < length (thread_data s)" by simp
    with st M_set_user_data have "s' = s\<lparr>thread_data := (thread_data s)[num_threads cfg - 1 := Some \<lparr>id' = int (num_threads cfg), iterations = 1\<rparr>], main_pc := M_create_user\<rparr>"
      by simp
    with M_set_user_data show ?thesis by (simp add: remaining_def)
  next
    case M_create_user
    from len n have u: "0 \<le> int (num_threads cfg) - 1 \<and> num_threads cfg - 1 < length (threads s)" by simp
    with st M_create_user have s': "s' = s\<lparr>threads := (threads s)[num_threads cfg - 1 := Mutex_user_thread (num_threads cfg - 1) U_lock1], main_pc := M_calculate_sum1 0 0\<rparr>"
      by simp
    from inv_slot[OF i, of "num_threads cfg - 1"] n M_create_user have nc: "threads s ! (num_threads cfg - 1) = Not_created"
      by (simp add: slot_ok_def)
    from sum_list_map_update[of "num_threads cfg - 1" "threads s" "thread_rem ?K" "Mutex_user_thread (num_threads cfg - 1) U_lock1" 23] u nc
    have "sum_list (map (thread_rem ?K) ((threads s)[num_threads cfg - 1 := Mutex_user_thread (num_threads cfg - 1) U_lock1])) =
          sum_list (map (thread_rem ?K) (threads s)) + 23" by simp
    with M_create_user show ?thesis by (simp add: remaining_def s')
  next
    case (M_calculate_sum1 j acc)
    show ?thesis
    proof (cases "j < 10")
      case True
      with la have "load (array s) j = Some (array s ! j)" by (simp add: load_def)
      with st M_calculate_sum1 True
      have "s' = s\<lparr>main_pc := M_calculate_sum1 (j + 1) (acc + array s ! j)\<rparr>" by simp
      with M_calculate_sum1 True show ?thesis by (simp add: remaining_def)
    next
      case False
      with st M_calculate_sum1 have "s' = s\<lparr>main_pc := M_printf_initial acc\<rparr>" by simp
      with M_calculate_sum1 False show ?thesis by (simp add: remaining_def)
    qed
  next
    case (M_printf_initial acc)
    with st have "s' = s\<lparr>stdout := stdout s @ [Initial_sum acc], main_pc := M_for_join 0\<rparr>" by simp
    with M_printf_initial show ?thesis by (simp add: remaining_def)
  next
    case (M_for_join j)
    with st have "s' = s\<lparr>main_pc := (if int j < int (num_threads cfg) then M_join j else M_calculate_sum2 0 0)\<rparr>" by simp
    with M_for_join show ?thesis by (auto simp: remaining_def)
  next
    case (M_join j)
    with st have "s' = s\<lparr>main_pc := M_for_join (j + 1)\<rparr>"
      by (simp add: load_def split: if_splits option.splits thread.splits)
    with M_join mok show ?thesis by (auto simp: remaining_def)
  next
    case (M_calculate_sum2 j acc)
    show ?thesis
    proof (cases "j < 10")
      case True
      with la have "load (array s) j = Some (array s ! j)" by (simp add: load_def)
      with st M_calculate_sum2 True
      have "s' = s\<lparr>main_pc := M_calculate_sum2 (j + 1) (acc + array s ! j)\<rparr>" by simp
      with M_calculate_sum2 True show ?thesis by (simp add: remaining_def)
    next
      case False
      with st M_calculate_sum2 have "s' = s\<lparr>main_pc := M_printf_counter acc\<rparr>" by simp
      with M_calculate_sum2 False show ?thesis by (simp add: remaining_def)
    qed
  next
    case (M_printf_counter acc)
    with st have "s' = s\<lparr>stdout := stdout s @ [Final_counter (counter s)], main_pc := M_printf_sum acc\<rparr>" by simp
    with M_printf_counter show ?thesis by (simp add: remaining_def)
  next
    case (M_printf_sum acc)
    with st have "s' = s\<lparr>stdout := stdout s @ [Final_sum acc], main_pc := M_printf_completed\<rparr>" by simp
    with M_printf_sum show ?thesis by (simp add: remaining_def)
  next
    case M_printf_completed
    with st have "s' = s\<lparr>stdout := stdout s @ [Completed], main_pc := M_return 0\<rparr>" by simp
    with M_printf_completed show ?thesis by (simp add: remaining_def)
  next
    case (M_return r)
    with st show ?thesis by simp
  qed
qed

lemma remaining_step:
  assumes n: "1 \<le> num_threads cfg" and i: "inv cfg s" and st: "step cfg who s = Next s'"
  shows "remaining cfg s' + 1 = remaining cfg s"
proof (cases who)
  case Main
  with remaining_main_step[OF n i] st show ?thesis by simp
next
  case (Thread t)
  with step_Thread[OF n i] st remaining_thread_step[OF i] show ?thesis by blast
qed

lemma remaining_exec:
  "1 \<le> num_threads cfg \<Longrightarrow> inv cfg s \<Longrightarrow> exec cfg sched s = Some s' \<Longrightarrow>
   length sched + remaining cfg s' = remaining cfg s"
proof (induction sched arbitrary: s)
  case Nil
  then show ?case by simp
next
  case (Cons who sched)
  from Cons.prems(3) obtain s1 where 1: "step cfg who s = Next s1" and 2: "exec cfg sched s1 = Some s'"
    by (auto split: outcome.splits)
  from Cons.IH[OF Cons.prems(1) inv_step[OF Cons.prems(1,2) 1] 2] remaining_step[OF Cons.prems(1,2) 1]
  show ?case by simp
qed

lemma sum_list_replicate_rem [simp]: "sum_list (map (thread_rem K) (replicate n Not_created)) = 0"
  by (induction n) auto

lemma remaining_start: "remaining cfg (start cfg ac av) = total_steps cfg"
  by (simp add: remaining_def start_def total_steps_def)


lemma main_outcome:
  assumes n: "1 \<le> num_threads cfg" and i: "inv cfg s"
  shows "step cfg Main s \<noteq> Undefined"
    and "step cfg Main s = Disabled \<Longrightarrow>
           (\<exists>r. main_pc s = M_return r) \<or>
           (\<exists>j. main_pc s = M_join j \<and> j < num_threads cfg \<and> threads s ! j \<noteq> Not_created \<and>
                \<not> finished (threads s ! j))"
proof -
  from i have len: "length (threads s) = num_threads cfg" "length (thread_data s) = num_threads cfg"
    and mok: "main_ok cfg (main_pc s)"
    unfolding inv_def by blast+
  note la = inv_length_array[OF n i]
  have "step cfg Main s \<noteq> Undefined \<and>
        (step cfg Main s = Disabled \<longrightarrow>
           (\<exists>r. main_pc s = M_return r) \<or>
           (\<exists>j. main_pc s = M_join j \<and> j < num_threads cfg \<and> threads s ! j \<noteq> Not_created \<and>
                \<not> finished (threads s ! j)))"
  proof (cases "main_pc s")
    case (M_join j)
    with mok have j: "j < num_threads cfg" by simp
    with inv_slot[OF i j] M_join have nc: "threads s ! j \<noteq> Not_created"
      by (auto simp: slot_ok_def split: if_splits)
    from j len have "load (threads s) j = Some (threads s ! j)" by (simp add: load_def)
    with M_join j nc show ?thesis by (cases "threads s ! j") auto
  next
    case (M_calculate_sum1 j acc)
    with la show ?thesis by (simp add: load_def)
  next
    case (M_calculate_sum2 j acc)
    with la show ?thesis by (simp add: load_def)
  qed (use len mok n in auto)
  then show "step cfg Main s \<noteq> Undefined"
    and "step cfg Main s = Disabled \<Longrightarrow>
           (\<exists>r. main_pc s = M_return r) \<or>
           (\<exists>j. main_pc s = M_join j \<and> j < num_threads cfg \<and> threads s ! j \<noteq> Not_created \<and>
                \<not> finished (threads s ! j))"
    by blast+
qed

lemma mutex2_free:
  assumes n: "1 \<le> num_threads cfg" and i: "inv cfg s" and t: "t < num_threads cfg"
    and th: "threads s ! t = Mutex_user_thread arg U_lock2"
  shows "mutex2 s = None"
proof (cases "mutex2 s")
  case None
  then show ?thesis .
next
  case (Some w)
  from i have o2: "owner_ok cfg (mutex2 s)" and mok: "main_ok cfg (main_pc s)"
    and h2: "\<And>u. u < num_threads cfg \<Longrightarrow> (mutex2 s = Some u) = holds_mutex2 (threads s ! u)"
    unfolding inv_def by blast+
  from o2 Some have w: "w < num_threads cfg" by simp
  with h2[OF w] Some have hw: "holds_mutex2 (threads s ! w)" by simp
  with slot_kind[OF inv_slot[OF i w]] have "is_mutex_user w (threads s ! w)"
    by (cases "threads s ! w") auto
  from mutex_user_last[OF inv_slot[OF i w] this w mok] have w': "w = num_threads cfg - 1" by simp
  from th slot_kind[OF inv_slot[OF i t]] have "is_mutex_user t (threads s ! t)" by auto
  from mutex_user_last[OF inv_slot[OF i t] this t mok] w' have "w = t" by simp
  with hw th show ?thesis by simp
qed

lemma thread_outcome:
  assumes n: "1 \<le> num_threads cfg" and i: "inv cfg s"
  shows "step cfg (Thread t) s \<noteq> Undefined"
    and "t < num_threads cfg \<Longrightarrow> step cfg (Thread t) s = Disabled \<Longrightarrow>
           threads s ! t = Not_created \<or> finished (threads s ! t) \<or>
           (waits_mutex1 (threads s ! t) \<and> mutex1 s \<noteq> None)"
proof -
  from i have len: "length (threads s) = num_threads cfg" unfolding inv_def by blast
  note la = inv_length_array[OF n i]
  have "step cfg (Thread t) s \<noteq> Undefined \<and>
        (t < num_threads cfg \<longrightarrow> step cfg (Thread t) s = Disabled \<longrightarrow>
           threads s ! t = Not_created \<or> finished (threads s ! t) \<or>
           (waits_mutex1 (threads s ! t) \<and> mutex1 s \<noteq> None))"
  proof (cases "t < num_threads cfg")
    case False
    with len show ?thesis by (simp add: load_def)
  next
    case t: True
    show ?thesis
    proof (cases "threads s ! t")
      case Not_created
      with t len show ?thesis by (simp add: load_def)
    next
      case (Worker_thread arg pc)
      note f = inv_worker_facts[OF i t Worker_thread]
      from f(5) t Worker_thread f(1) have ld: "load (threads s) t = Some (Worker_thread t pc)"
        by (simp add: load_def)
      from f(2,3,4) ld Worker_thread f(1) show ?thesis
        by (cases pc)
          (auto simp: pthread_mutex_lock_def pthread_mutex_unlock_def split: option.splits)
    next
      case (Mutex_user_thread arg pc)
      note f = inv_user_facts[OF n i t Mutex_user_thread]
      from f(6) t Mutex_user_thread f(1) have ld: "load (threads s) t = Some (Mutex_user_thread t pc)"
        by (simp add: load_def)
      have m2: "pc = U_lock2 \<Longrightarrow> mutex2 s = None"
        using mutex2_free[OF n i t] Mutex_user_thread by simp
      from f(2,3,4,5) ld Mutex_user_thread f(1) la m2 show ?thesis
        by (cases pc)
          (auto simp: pthread_mutex_lock_def pthread_mutex_unlock_def load_def
            split: option.splits)
    qed
  qed
  then show "step cfg (Thread t) s \<noteq> Undefined"
    and "t < num_threads cfg \<Longrightarrow> step cfg (Thread t) s = Disabled \<Longrightarrow>
           threads s ! t = Not_created \<or> finished (threads s ! t) \<or>
           (waits_mutex1 (threads s ! t) \<and> mutex1 s \<noteq> None)"
    by blast+
qed

lemma step_defined:
  "1 \<le> num_threads cfg \<Longrightarrow> inv cfg s \<Longrightarrow> step cfg who s \<noteq> Undefined"
  using main_outcome(1)[of cfg s] thread_outcome(1)[of cfg s] by (cases who) blast+

lemma not_disabled_Next:
  "step cfg who s \<noteq> Undefined \<Longrightarrow> step cfg who s \<noteq> Disabled \<Longrightarrow> \<exists>s'. step cfg who s = Next s'"
  by (cases "step cfg who s") auto

lemma owner_enabled:
  assumes n: "1 \<le> num_threads cfg" and i: "inv cfg s" and m: "mutex1 s = Some u"
  shows "\<exists>s'. step cfg (Thread u) s = Next s'"
proof -
  from i have o1: "owner_ok cfg (mutex1 s)"
    and h1: "\<And>t. t < num_threads cfg \<Longrightarrow> (mutex1 s = Some t) = holds_mutex1 (threads s ! t)"
    unfolding inv_def by blast+
  from o1 m have u: "u < num_threads cfg" by simp
  with h1[OF u] m have h: "holds_mutex1 (threads s ! u)" by simp
  have "step cfg (Thread u) s \<noteq> Disabled"
  proof
    assume "step cfg (Thread u) s = Disabled"
    from thread_outcome(2)[OF n i u this] h show False
      by (cases "threads s ! u" rule: holds_mutex1.cases) auto
  qed
  with thread_outcome(1)[OF n i, of u] show ?thesis by (rule not_disabled_Next)
qed

lemma progress:
  assumes n: "1 \<le> num_threads cfg" and i: "inv cfg s" and r: "\<And>r. main_pc s \<noteq> M_return r"
  shows "\<exists>who s'. step cfg who s = Next s'"
proof (cases "step cfg Main s = Disabled")
  case False
  with main_outcome(1)[OF n i] not_disabled_Next show ?thesis by blast
next
  case True
  from main_outcome(2)[OF n i True] r obtain j where j: "j < num_threads cfg"
    "threads s ! j \<noteq> Not_created" "\<not> finished (threads s ! j)" by blast
  show ?thesis
  proof (cases "step cfg (Thread j) s = Disabled")
    case False
    with thread_outcome(1)[OF n i, of j] not_disabled_Next show ?thesis by blast
  next
    case True
    from thread_outcome(2)[OF n i j(1) True] j obtain u where "mutex1 s = Some u" by auto
    from owner_enabled[OF n i this] show ?thesis by blast
  qed
qed

lemma can_finish:
  assumes n: "1 \<le> num_threads cfg"
  shows "inv cfg s \<Longrightarrow> \<exists>sched' s'. exec cfg sched' s = Some s' \<and> main_pc s' = M_return 0"
proof (induction "remaining cfg s" arbitrary: s rule: less_induct)
  case less
  show ?case
  proof (cases "\<exists>r. main_pc s = M_return r")
    case True
    then obtain r where r: "main_pc s = M_return r" ..
    from less.prems have "main_ok cfg (main_pc s)" unfolding inv_def by blast
    with r have "exec cfg [] s = Some s \<and> main_pc s = M_return 0" by simp
    then show ?thesis by blast
  next
    case False
    with progress[OF n less.prems] obtain who s1 where st: "step cfg who s = Next s1" by blast
    from remaining_step[OF n less.prems st] have "remaining cfg s1 < remaining cfg s" by simp
    from less.hyps[OF this inv_step[OF n less.prems st]]
    obtain sched' s' where "exec cfg sched' s1 = Some s'" "main_pc s' = M_return 0" by blast
    with st have "exec cfg (who # sched') s = Some s' \<and> main_pc s' = M_return 0" by simp
    then show ?thesis by blast
  qed
qed

text \<open>
  C7. For all arguments and in every interleaving: if \<^verbatim>\<open>main\<close> has returned, it has
  returned 0; no step of any thread is undefined; from the state reached the program
  can always go on until \<^verbatim>\<open>main\<close> has returned 0 (nothing is ever blocked for good); and
  the execution is no longer than \<open>total_steps\<close>, so that no execution runs forever.
  There is no path on which \<^verbatim>\<open>main\<close> returns anything else.
\<close>

theorem main_returns_success:
  assumes "1 \<le> num_threads cfg"
    and "exec cfg sched (start cfg ac av) = Some s"
  shows "(main_pc s = M_return r \<longrightarrow> r = 0) \<and>
         step cfg who s \<noteq> Undefined \<and>
         (\<exists>sched' s'. exec cfg sched' s = Some s' \<and> main_pc s' = M_return 0) \<and>
         length sched \<le> total_steps cfg"
proof -
  note i = inv_reachable[OF assms(1) reachableI[OF assms(2)]]
  from i have "main_ok cfg (main_pc s)" unfolding inv_def by blast
  then have a: "main_pc s = M_return r \<longrightarrow> r = 0" by auto
  from remaining_exec[OF assms(1) inv_start[OF assms(1)] assms(2)]
  have "length sched \<le> total_steps cfg" by (simp add: remaining_start)
  with a step_defined[OF assms(1) i] can_finish[OF assms(1) i] show ?thesis by blast
qed

theorem main_returns_success_witness:
  "1 \<le> num_threads sample_program \<and>
   exec sample_program sequential_schedule (start sample_program 1 []) = Some sequential_final \<and>
   main_pc sequential_final = M_return 0 \<and>
   length sequential_schedule \<le> total_steps sample_program \<and>
   total_steps sample_program = 209"
proof -
  have n: "1 \<le> num_threads sample_program" by (simp add: sample_program_def)
  have pc: "main_pc sequential_final = M_return 0" by (simp add: sequential_final_def)
  have t: "total_steps sample_program = 209" by (simp add: total_steps_def sample_program_def)
  from main_returns_success[OF n exec_sequential, of 0] n pc t exec_sequential
  show ?thesis by simp
qed

end
